theory Spec2Isabelle
  imports Complex_Main "HOL-Library.AList"
begin

section \<open>JavaScript containers and the environment\<close>

text \<open>
  A JavaScript \<open>Map\<close> keeps its keys in insertion order: it is an association list with
  \<open>map_of\<close> for \<open>get\<close>, \<open>AList.update\<close> for \<open>set\<close> (in place for a
  known key, at the end for a new one) and \<open>AList.delete\<close> for \<open>delete\<close>.
  A JavaScript \<open>Set\<close> is a duplicate-free list in insertion order.
\<close>

definition set_add :: "'a \<Rightarrow> 'a list \<Rightarrow> 'a list" where
  "set_add x s = (if x \<in> set s then s else s @ [x])"

definition set_delete :: "'a \<Rightarrow> 'a list \<Rightarrow> 'a list" where
  "set_delete x s = removeAll x s"

text \<open>
  \<open>Array.prototype.slice(start)\<close> for an integer \<open>start\<close>: a negative start
  counts from the end and is clamped at the first element, a start beyond the end gives
  the empty array. JavaScript's \<open>-0\<close> is the start \<open>0\<close>.
\<close>

definition js_slice :: "int \<Rightarrow> 'a list \<Rightarrow> 'a list" where
  "js_slice start xs =
     (let len = int (length xs);
          k = (if start < 0 then max (len + start) 0 else min start len)
      in drop (nat k) xs)"

text \<open>\<open>Array.prototype.findIndex\<close>: the first index whose element satisfies the
  predicate, \<open>-1\<close> when there is none.\<close>

fun findIndex :: "('a \<Rightarrow> bool) \<Rightarrow> 'a list \<Rightarrow> int" where
  "findIndex P [] = - 1"
| "findIndex P (x # xs) =
     (if P x then 0 else (let i = findIndex P xs in if i = - 1 then - 1 else i + 1))"

text \<open>
  The two sources of values the code does not compute itself: \<open>crypto.randomUUID()\<close>
  and \<open>Date.now()\<close>. Each is the sequence of the values its successive calls return,
  with the number of calls made so far.
\<close>

record env =
  uuid_src :: "nat \<Rightarrow> string"
  uuid_used :: nat
  time_src :: "nat \<Rightarrow> int"
  time_used :: nat

definition randomUUID :: "env \<Rightarrow> string \<times> env" where
  "randomUUID e = (uuid_src e (uuid_used e), e\<lparr>uuid_used := Suc (uuid_used e)\<rparr>)"

definition Date_now :: "env \<Rightarrow> int \<times> env" where
  "Date_now e = (time_src e (time_used e), e\<lparr>time_used := Suc (time_used e)\<rparr>)"

section \<open>SSE configuration (config.ts)\<close>

definition HEARTBEAT_INTERVAL :: int where "HEARTBEAT_INTERVAL = 30000"
definition MESSAGE_QUEUE_TTL :: int where "MESSAGE_QUEUE_TTL = 5 * 60000"
definition MESSAGE_QUEUE_MAX_SIZE :: int where "MESSAGE_QUEUE_MAX_SIZE = 1000"
definition INITIAL_RECONNECT_DELAY :: int where "INITIAL_RECONNECT_DELAY = 1000"
definition MAX_RECONNECT_DELAY :: int where "MAX_RECONNECT_DELAY = 60000"
definition HEARTBEAT_TIMEOUT :: int where "HEARTBEAT_TIMEOUT = 45000"
definition RETRY_INTERVAL :: string where "RETRY_INTERVAL = ''3000''"

section \<open>The catch-up buffer (MessageQueue.ts)\<close>

text \<open>A payload is opaque to the queue; it is carried as its JSON text. The handle of
  the periodic cleanup timer is left out: no operation below reads it.\<close>

record QueuedMessage =
  msg_id :: string
  msg_event :: string
  msg_data :: string
  msg_timestamp :: int
  msg_roomId :: string

record MessageQueue =
  queues :: "(string \<times> QueuedMessage list) list"
  ttl :: int
  maxSize :: int

definition new_MessageQueue :: "int \<Rightarrow> int \<Rightarrow> MessageQueue" where
  "new_MessageQueue t m = \<lparr>queues = [], ttl = t, maxSize = m\<rparr>"

definition messageQueue_init :: MessageQueue where
  "messageQueue_init = new_MessageQueue MESSAGE_QUEUE_TTL MESSAGE_QUEUE_MAX_SIZE"

text \<open>
  \<open>enqueue\<close> draws the id, reads the clock, creates the room's array when the room has
  none, pushes the message onto the stored array (the map then holds the longer array)
  and, when the array is now longer than \<open>maxSize\<close>, stores \<open>queue.slice(-maxSize)\<close>
  in its place.
\<close>

definition enqueue ::
  "string \<Rightarrow> string \<Rightarrow> string \<Rightarrow> env \<times> MessageQueue \<Rightarrow> string \<times> env \<times> MessageQueue" where
  "enqueue roomId event data s =
     (let (e, q) = s;
          (i, e1) = randomUUID e;
          (now, e2) = Date_now e1;
          message = \<lparr>msg_id = i, msg_event = event, msg_data = data,
                     msg_timestamp = now, msg_roomId = roomId\<rparr>;
          stored = map_of (queues q) roomId;
          qs0 = (case stored of None \<Rightarrow> AList.update roomId [] (queues q) | Some old \<Rightarrow> queues q);
          queue = (case stored of None \<Rightarrow> [] | Some old \<Rightarrow> old) @ [message];
          qs1 = AList.update roomId queue qs0;
          qs2 = (if int (length queue) > maxSize q
                 then AList.update roomId (js_slice (- maxSize q) queue) qs1
                 else qs1)
      in (i, e2, q\<lparr>queues := qs2\<rparr>))"

definition getMessagesSince :: "MessageQueue \<Rightarrow> string \<Rightarrow> string \<Rightarrow> QueuedMessage list" where
  "getMessagesSince q roomId lastEventId =
     (case map_of (queues q) roomId of
        None \<Rightarrow> []
      | Some queue \<Rightarrow>
          if length queue = 0 then []
          else (let lastIndex = findIndex (\<lambda>m. msg_id m = lastEventId) queue
                in if lastIndex = - 1 then js_slice (- 50) queue
                   else js_slice (lastIndex + 1) queue))"

definition getMessages :: "MessageQueue \<Rightarrow> string \<Rightarrow> int \<Rightarrow> QueuedMessage list" where
  "getMessages q roomId limit =
     (case map_of (queues q) roomId of None \<Rightarrow> [] | Some queue \<Rightarrow> js_slice (- limit) queue)"

definition getLatestEventId :: "MessageQueue \<Rightarrow> string \<Rightarrow> string option" where
  "getLatestEventId q roomId =
     (case map_of (queues q) roomId of
        None \<Rightarrow> None
      | Some queue \<Rightarrow> if length queue = 0 then None else Some (msg_id (last queue)))"

definition hasEventId :: "MessageQueue \<Rightarrow> string \<Rightarrow> string \<Rightarrow> bool" where
  "hasEventId q roomId eventId =
     (case map_of (queues q) roomId of
        None \<Rightarrow> False
      | Some queue \<Rightarrow> list_ex (\<lambda>m. msg_id m = eventId) queue)"

text \<open>\<open>cleanup\<close> drops the entries older than the TTL, room by room, and deletes a room
  whose array became empty; it returns the number of entries removed.\<close>

fun cleanup_rooms ::
  "int \<Rightarrow> int \<Rightarrow> (string \<times> QueuedMessage list) list \<Rightarrow> (string \<times> QueuedMessage list) list
   \<Rightarrow> int \<times> (string \<times> QueuedMessage list) list" where
  "cleanup_rooms now t [] qs = (0, qs)"
| "cleanup_rooms now t ((roomId, queue) # rest) qs =
     (let filtered = filter (\<lambda>m. now - msg_timestamp m < t) queue;
          removed = int (length queue) - int (length filtered);
          qs' = (if length filtered \<noteq> length queue
                 then (if length filtered = 0 then AList.delete roomId qs
                       else AList.update roomId filtered qs)
                 else qs);
          (n, qs'') = cleanup_rooms now t rest qs'
      in (removed + n, qs''))"

definition cleanup :: "env \<times> MessageQueue \<Rightarrow> int \<times> env \<times> MessageQueue" where
  "cleanup s =
     (let (e, q) = s;
          (now, e1) = Date_now e;
          (totalRemoved, qs) = cleanup_rooms now (ttl q) (queues q) (queues q)
      in (totalRemoved, e1, q\<lparr>queues := qs\<rparr>))"

definition clear :: "MessageQueue \<Rightarrow> MessageQueue" where
  "clear q = q\<lparr>queues := []\<rparr>"

section \<open>The event bus (SSEEventEmitter.ts)\<close>

datatype SSEEventType = chatMessage | userStatusUpdate | buddyListUpdate | heartbeat

fun type_name :: "SSEEventType \<Rightarrow> string" where
  "type_name chatMessage = ''chatMessage''"
| "type_name userStatusUpdate = ''userStatusUpdate''"
| "type_name buddyListUpdate = ''buddyListUpdate''"
| "type_name heartbeat = ''heartbeat''"

record SSEEvent =
  ev_type :: SSEEventType
  ev_data :: string
  ev_id :: "string option"

text \<open>
  A call either returns or throws; in both cases it leaves a state behind.
\<close>

datatype 'a outcome = Returned 'a | Threw 'a

text \<open>
  A listener is a function value, compared by reference in the \<open>Set\<close> that holds it:
  the emitter is generic in the type \<open>'l\<close> of listener references. What a listener
  does when called is given by \<open>invoke\<close>, which acts on the state \<open>'w\<close> outside the
  emitter and either returns or throws. Listeners do not call back into the emitter.
\<close>

type_synonym ('l, 'w) invoke = "'l \<Rightarrow> SSEEvent \<Rightarrow> 'w \<Rightarrow> 'w outcome"

record 'l SSEEventEmitter =
  listeners :: "(string \<times> 'l list) list"
  maxListeners :: int
  listenerCount :: int

definition new_SSEEventEmitter :: "'l SSEEventEmitter" where
  "new_SSEEventEmitter = \<lparr>listeners = [], maxListeners = 100, listenerCount = 0\<rparr>"

text \<open>\<open>addListener\<close> creates the channel's set when the channel has none, adds the
  listener to the set and increments the global count. The cleanup function it returns
  is \<open>removeListener\<close> for the same channel and listener.\<close>

definition addListener :: "string \<Rightarrow> 'l \<Rightarrow> 'l SSEEventEmitter \<Rightarrow> 'l SSEEventEmitter" where
  "addListener channel listener E =
     (let ls0 = (case map_of (listeners E) channel of
                   None \<Rightarrow> AList.update channel [] (listeners E)
                 | Some cl \<Rightarrow> listeners E);
          channelListeners = (case map_of ls0 channel of None \<Rightarrow> [] | Some cl \<Rightarrow> cl)
      in E\<lparr>listeners := AList.update channel (set_add listener channelListeners) ls0,
           listenerCount := listenerCount E + 1\<rparr>)"

definition removeListener ::
  "string \<Rightarrow> 'l \<Rightarrow> 'l SSEEventEmitter \<Rightarrow> bool \<times> 'l SSEEventEmitter" where
  "removeListener channel listener E =
     (case map_of (listeners E) channel of
        None \<Rightarrow> (False, E)
      | Some channelListeners \<Rightarrow>
          if listener \<in> set channelListeners
          then (let cl = set_delete listener channelListeners;
                    ls1 = AList.update channel cl (listeners E);
                    ls2 = (if length cl = 0 then AList.delete channel ls1 else ls1)
                in (True, E\<lparr>listeners := ls2, listenerCount := listenerCount E - 1\<rparr>))
          else (False, E))"

text \<open>An absent argument and the empty string both fail the test \<open>if (channel)\<close>.\<close>

definition removeAllListeners :: "string option \<Rightarrow> 'l SSEEventEmitter \<Rightarrow> 'l SSEEventEmitter" where
  "removeAllListeners channel E =
     (case channel of
        Some c \<Rightarrow>
          if c \<noteq> []
          then (case map_of (listeners E) c of
                  None \<Rightarrow> E
                | Some channelListeners \<Rightarrow>
                    E\<lparr>listeners := AList.delete c (listeners E),
                      listenerCount := listenerCount E - int (length channelListeners)\<rparr>)
          else E\<lparr>listeners := [], listenerCount := 0\<rparr>
      | None \<Rightarrow> E\<lparr>listeners := [], listenerCount := 0\<rparr>)"

definition getListenerCount :: "string option \<Rightarrow> 'l SSEEventEmitter \<Rightarrow> int" where
  "getListenerCount channel E =
     (case channel of
        Some c \<Rightarrow>
          if c \<noteq> []
          then (case map_of (listeners E) c of None \<Rightarrow> 0 | Some cl \<Rightarrow> int (length cl))
          else listenerCount E
      | None \<Rightarrow> listenerCount E)"

definition hasListeners :: "string \<Rightarrow> 'l SSEEventEmitter \<Rightarrow> bool" where
  "hasListeners channel E =
     (case map_of (listeners E) channel of None \<Rightarrow> False | Some cl \<Rightarrow> length cl > 0)"

text \<open>
  \<open>emit\<close> walks a copy of the \<open>'sse'\<close> channel's set. A listener that throws is caught
  and removed from the channel; the walk goes on with the next listener of the copy.
  The third component records the listeners called, in call order.
\<close>

fun emit_loop ::
  "('l, 'w) invoke \<Rightarrow> SSEEvent \<Rightarrow> 'l list \<Rightarrow> 'l SSEEventEmitter \<times> 'w \<times> 'l list
   \<Rightarrow> 'l SSEEventEmitter \<times> 'w \<times> 'l list" where
  "emit_loop call event [] s = s"
| "emit_loop call event (listener # rest) (E, w, called) =
     (case call listener event w of
        Returned w' \<Rightarrow> emit_loop call event rest (E, w', called @ [listener])
      | Threw w' \<Rightarrow>
          emit_loop call event rest
            (snd (removeListener ''sse'' listener E), w', called @ [listener]))"

definition emit ::
  "('l, 'w) invoke \<Rightarrow> SSEEventType \<Rightarrow> string \<Rightarrow> string option \<Rightarrow> 'l SSEEventEmitter \<times> 'w
   \<Rightarrow> ('l SSEEventEmitter \<times> 'w \<times> 'l list) outcome" where
  "emit call type data eid s =
     (let (E, w) = s;
          event = \<lparr>ev_type = type, ev_data = data, ev_id = eid\<rparr>
      in case map_of (listeners E) ''sse'' of
           None \<Rightarrow> Returned (E, w, [])
         | Some eventListeners \<Rightarrow>
             if length eventListeners > 0
             then Returned (emit_loop call event eventListeners (E, w, []))
             else Returned (E, w, []))"

text \<open>A sequence of calls on the emitter's listener bookkeeping.\<close>

datatype 'l emitter_op =
    AddListener string 'l
  | RemoveListener string 'l
  | RemoveAllListeners "string option"

fun emitter_call :: "'l emitter_op \<Rightarrow> 'l SSEEventEmitter \<Rightarrow> 'l SSEEventEmitter" where
  "emitter_call (AddListener c l) E = addListener c l E"
| "emitter_call (RemoveListener c l) E = snd (removeListener c l E)"
| "emitter_call (RemoveAllListeners c) E = removeAllListeners c E"

definition emitter_calls :: "'l emitter_op list \<Rightarrow> 'l SSEEventEmitter \<Rightarrow> 'l SSEEventEmitter" where
  "emitter_calls cs E = foldl (\<lambda>E c. emitter_call c E) E cs"

text \<open>The sum over all channels of the size of the channel's listener set.\<close>

definition channel_sizes_sum :: "'l SSEEventEmitter \<Rightarrow> int" where
  "channel_sizes_sum E = sum_list (map (\<lambda>(c, cl). int (length cl)) (listeners E))"

text \<open>A sequence of later \<open>emit\<close> calls: the listeners each one called.\<close>

fun emits ::
  "('l, 'w) invoke \<Rightarrow> (SSEEventType \<times> string \<times> string option) list
   \<Rightarrow> 'l SSEEventEmitter \<times> 'w \<Rightarrow> 'l list list" where
  "emits call [] s = []"
| "emits call ((type, data, eid) # rest) s =
     (case emit call type data eid s of
        Returned (E, w, called) \<Rightarrow> called # emits call rest (E, w)
      | Threw _ \<Rightarrow> [])"

section \<open>The connection registry (SSEManager.ts)\<close>

text \<open>The \<open>controller\<close> field holds a reference to a stream controller, or null. Of
  the manager's fields the two maps are kept; the text encoder and the handles of the two
  background timers are read by no operation below.\<close>

record SSEConnection =
  connectionId :: string
  userId :: string
  connectedAt :: int
  lastActivity :: int
  lastHeartbeat :: int
  roomId :: string
  controller :: "nat option"

record SSEManager =
  connections :: "(string \<times> SSEConnection) list"
  userConnections :: "(string \<times> string list) list"

definition new_SSEManager :: SSEManager where
  "new_SSEManager = \<lparr>connections = [], userConnections = []\<rparr>"

definition addConnection ::
  "string \<Rightarrow> string \<Rightarrow> nat \<Rightarrow> env \<times> SSEManager \<Rightarrow> (string \<times> bool) \<times> env \<times> SSEManager" where
  "addConnection uid rid ctrl s =
     (let (e, m) = s;
          (cid, e1) = randomUUID e;
          (now, e2) = Date_now e1;
          connection = \<lparr>connectionId = cid, userId = uid, connectedAt = now,
                        lastActivity = now, lastHeartbeat = now, roomId = rid,
                        controller = Some ctrl\<rparr>;
          conns = AList.update cid connection (connections m);
          userConns = map_of (userConnections m) uid;
          isNewUser = (case userConns of None \<Rightarrow> True | Some uc \<Rightarrow> length uc = 0);
          ucs0 = (case userConns of
                    None \<Rightarrow> AList.update uid [] (userConnections m)
                  | Some uc \<Rightarrow> userConnections m);
          uc' = set_add cid (case userConns of None \<Rightarrow> [] | Some uc \<Rightarrow> uc)
      in ((cid, isNewUser), e2,
          m\<lparr>connections := conns, userConnections := AList.update uid uc' ucs0\<rparr>))"

record remove_result =
  removed :: bool
  isLastConnection :: bool
  removed_userId :: "string option"

definition removeConnection :: "string \<Rightarrow> SSEManager \<Rightarrow> remove_result \<times> SSEManager" where
  "removeConnection cid m =
     (case map_of (connections m) cid of
        None \<Rightarrow> (\<lparr>removed = False, isLastConnection = False, removed_userId = None\<rparr>, m)
      | Some connection \<Rightarrow>
          (let uid = userId connection;
               conns = AList.delete cid (connections m);
               userConns = map_of (userConnections m) uid;
               ucs = (case userConns of
                        None \<Rightarrow> userConnections m
                      | Some uc \<Rightarrow>
                          (let uc' = set_delete cid uc
                           in if length uc' = 0 then AList.delete uid (userConnections m)
                              else AList.update uid uc' (userConnections m)));
               isLast = (case userConns of
                           None \<Rightarrow> True
                         | Some uc \<Rightarrow> length (set_delete cid uc) = 0)
           in (\<lparr>removed = True, isLastConnection = isLast, removed_userId = Some uid\<rparr>,
               m\<lparr>connections := conns, userConnections := ucs\<rparr>)))"

definition getConnection :: "SSEManager \<Rightarrow> string \<Rightarrow> SSEConnection option" where
  "getConnection m cid = map_of (connections m) cid"

definition hasUserConnection :: "SSEManager \<Rightarrow> string \<Rightarrow> bool" where
  "hasUserConnection m uid =
     (case map_of (userConnections m) uid of None \<Rightarrow> False | Some uc \<Rightarrow> length uc > 0)"

definition getUserConnectionIds :: "SSEManager \<Rightarrow> string \<Rightarrow> string list" where
  "getUserConnectionIds m uid =
     (case map_of (userConnections m) uid of None \<Rightarrow> [] | Some uc \<Rightarrow> uc)"

definition getActiveUserIds :: "SSEManager \<Rightarrow> string list" where
  "getActiveUserIds m = map fst (userConnections m)"

text \<open>\<open>acknowledgeHeartbeat\<close> reads the clock twice, once for each timestamp.\<close>

definition acknowledgeHeartbeat :: "string \<Rightarrow> env \<times> SSEManager \<Rightarrow> bool \<times> env \<times> SSEManager" where
  "acknowledgeHeartbeat cid s =
     (let (e, m) = s
      in case map_of (connections m) cid of
           None \<Rightarrow> (False, e, m)
         | Some connection \<Rightarrow>
             (let (t1, e1) = Date_now e;
                  (t2, e2) = Date_now e1
              in (True, e2,
                  m\<lparr>connections :=
                      AList.update cid (connection\<lparr>lastHeartbeat := t1, lastActivity := t2\<rparr>)
                        (connections m)\<rparr>)))"

text \<open>The stale sweep collects the ids whose last acknowledgment is older than the
  timeout, then removes them one by one through \<open>removeConnection\<close>.\<close>

definition cleanupStaleConnections :: "env \<times> SSEManager \<Rightarrow> env \<times> SSEManager" where
  "cleanupStaleConnections s =
     (let (e, m) = s;
          (now, e1) = Date_now e;
          staleConnections =
            map fst (filter (\<lambda>(cid, c). now - lastHeartbeat c > HEARTBEAT_TIMEOUT) (connections m))
      in (e1, foldl (\<lambda>m cid. snd (removeConnection cid m)) m staleConnections))"

text \<open>A sequence of calls on the registry.\<close>

datatype manager_op =
    AddConnection string string nat
  | RemoveConnection string
  | AcknowledgeHeartbeat string
  | CleanupStaleConnections

fun manager_call :: "manager_op \<Rightarrow> env \<times> SSEManager \<Rightarrow> env \<times> SSEManager" where
  "manager_call (AddConnection uid rid ctrl) s = snd (addConnection uid rid ctrl s)"
| "manager_call (RemoveConnection cid) (e, m) = (e, snd (removeConnection cid m))"
| "manager_call (AcknowledgeHeartbeat cid) s = snd (acknowledgeHeartbeat cid s)"
| "manager_call CleanupStaleConnections s = cleanupStaleConnections s"

definition manager_calls :: "manager_op list \<Rightarrow> env \<times> SSEManager \<Rightarrow> env \<times> SSEManager" where
  "manager_calls cs s = foldl (\<lambda>s c. manager_call c s) s cs"

section \<open>The heartbeat acknowledgment endpoint (routes/api/sse/heartbeat/+server.ts)\<close>

text \<open>
  The request body: text that is not JSON (\<open>request.json()\<close> throws), the JSON value
  \<open>null\<close> (destructuring it throws), or a value whose \<open>connectionId\<close> property is a
  string or is anything else, absent included.
\<close>

datatype connectionId_value = Str string | NotAString

datatype request_body = InvalidJson | JsonNull | JsonBody connectionId_value

record response =
  resp_status :: nat
  resp_success :: bool
  resp_error :: "string option"

definition json_response :: "nat \<Rightarrow> bool \<Rightarrow> string option \<Rightarrow> response" where
  "json_response st ok err = \<lparr>resp_status = st, resp_success = ok, resp_error = err\<rparr>"

definition POST ::
  "string option \<Rightarrow> request_body \<Rightarrow> env \<times> SSEManager \<Rightarrow> response \<times> env \<times> SSEManager" where
  "POST locals_user body s =
     (let (e, m) = s
      in case locals_user of
           None \<Rightarrow> (json_response 401 False (Some ''Unauthorized''), e, m)
         | Some caller \<Rightarrow>
             (case body of
                InvalidJson \<Rightarrow> (json_response 500 False (Some ''Internal server error''), e, m)
              | JsonNull \<Rightarrow> (json_response 500 False (Some ''Internal server error''), e, m)
              | JsonBody NotAString \<Rightarrow>
                  (json_response 400 False (Some ''Invalid connectionId''), e, m)
              | JsonBody (Str cid) \<Rightarrow>
                  if cid = [] then (json_response 400 False (Some ''Invalid connectionId''), e, m)
                  else (case getConnection m cid of
                          None \<Rightarrow> (json_response 404 False (Some ''Connection not found''), e, m)
                        | Some connection \<Rightarrow>
                            if userId connection \<noteq> caller
                            then (json_response 403 False (Some ''Unauthorized''), e, m)
                            else (let (acknowledged, e', m') = acknowledgeHeartbeat cid (e, m)
                                  in if acknowledged then (json_response 200 True None, e', m')
                                     else (json_response 500 False
                                             (Some ''Failed to acknowledge''), e', m')))))"

section \<open>Broadcast and the endpoint's bus listener (SSEManager.ts, routes/api/sse/+server.ts)\<close>

text \<open>
  A stream controller: whether its stream is closed, and the chunks written so far.
  Writing to a closed stream throws.
\<close>

record stream =
  stream_closed :: bool
  stream_chunks :: "string list"

definition controller_enqueue :: "nat \<Rightarrow> string \<Rightarrow> (nat \<Rightarrow> stream) \<Rightarrow> (nat \<Rightarrow> stream) outcome" where
  "controller_enqueue c chunk streams =
     (if stream_closed (streams c) then Threw streams
      else Returned (streams(c := (streams c)\<lparr>stream_chunks := stream_chunks (streams c) @ [chunk]\<rparr>)))"

definition join_lines :: "string list \<Rightarrow> string" where
  "join_lines ls = concat (case ls of [] \<Rightarrow> [] | l # rest \<Rightarrow> l # map (\<lambda>x. CHR 0x0A # x) rest)"

definition formatSSEEvent :: "SSEEvent \<Rightarrow> string \<Rightarrow> string" where
  "formatSSEEvent event eventId =
     join_lines [''id: '' @ eventId,
                 ''event: '' @ type_name (ev_type event),
                 ''data: '' @ ev_data event,
                 ''retry: '' @ RETRY_INTERVAL,
                 '''',
                 '''']"

text \<open>What lies outside the emitter on the server: the environment, the catch-up
  buffer and the stream controllers.\<close>

record server_world =
  sw_env :: env
  sw_mq :: MessageQueue
  sw_streams :: "nat \<Rightarrow> stream"

text \<open>
  The listener \<open>onSSE\<close> that the endpoint registers on the bus is a closure over its
  stream controller and its room id. It draws an id for the frame, writes the frame and,
  for an event other than a heartbeat, enqueues the event into the catch-up buffer,
  where \<open>enqueue\<close> draws an id of its own. A failed write is caught and skips the enqueue.
\<close>

datatype sse_listener = OnSSE nat string

text \<open>A call of \<open>messageQueue.enqueue\<close> on the server's buffer; the returned id is
  not used by the callers below.\<close>

definition world_enqueue :: "string \<Rightarrow> string \<Rightarrow> string \<Rightarrow> server_world \<Rightarrow> server_world" where
  "world_enqueue rid event data w =
     (let (i, e2, q2) = enqueue rid event data (sw_env w, sw_mq w)
      in w\<lparr>sw_env := e2, sw_mq := q2\<rparr>)"

fun onSSE :: "(sse_listener, server_world) invoke" where
  "onSSE (OnSSE c rid) event w =
     (let (eventId, e1) = randomUUID (sw_env w);
          payload = formatSSEEvent event eventId;
          w1 = w\<lparr>sw_env := e1\<rparr>
      in case controller_enqueue c payload (sw_streams w1) of
           Threw _ \<Rightarrow> Returned w1
         | Returned st \<Rightarrow>
             (let w2 = w1\<lparr>sw_streams := st\<rparr>
              in if ev_type event \<noteq> heartbeat
                 then Returned (world_enqueue rid (type_name (ev_type event)) (ev_data event) w2)
                 else Returned w2))"

text \<open>\<open>broadcast\<close> draws the event id, enqueues when \<open>if (roomId)\<close> holds (a room id
  that is present and not the empty string), then emits on the bus.\<close>

definition broadcast ::
  "SSEEventType \<Rightarrow> string \<Rightarrow> string option \<Rightarrow> sse_listener SSEEventEmitter \<times> server_world
   \<Rightarrow> (sse_listener SSEEventEmitter \<times> server_world \<times> sse_listener list) outcome" where
  "broadcast type data rid s =
     (let (E, w) = s;
          (eventId, e1) = randomUUID (sw_env w);
          w1 = w\<lparr>sw_env := e1\<rparr>;
          w2 = (case rid of
                  None \<Rightarrow> w1
                | Some r \<Rightarrow> if r \<noteq> [] then world_enqueue r (type_name type) data w1 else w1)
      in emit onSSE type data (Some eventId) (E, w2))"

text \<open>
  What happens on the server between two observations: a broadcast, an emit made by the
  endpoint itself, one listener being called with an event (a step inside an emit), an
  enqueue (as \<open>sendToConnection\<close> makes after its write), the periodic cleanup, a
  reset of the buffer, a listener subscribing or unsubscribing, a stream closing, and
  any other call of \<open>crypto.randomUUID()\<close> or \<open>Date.now()\<close> (by \<open>addConnection\<close>,
  the heartbeat task, the endpoint's connect event).
\<close>

datatype server_op =
    Broadcast SSEEventType string "string option"
  | Emit SSEEventType string "string option"
  | Enqueue string string string
  | Cleanup
  | Clear
  | Subscribe sse_listener
  | Unsubscribe sse_listener
  | CloseStream nat
  | Deliver sse_listener SSEEvent
  | DrawId
  | ReadClock

fun finished :: "'a outcome \<Rightarrow> 'a" where
  "finished (Returned s) = s"
| "finished (Threw s) = s"

fun server_step ::
  "server_op \<Rightarrow> sse_listener SSEEventEmitter \<times> server_world
   \<Rightarrow> sse_listener SSEEventEmitter \<times> server_world" where
  "server_step (Broadcast type data rid) s =
     (let (E', w', called) = finished (broadcast type data rid s) in (E', w'))"
| "server_step (Emit type data eid) s =
     (let (E', w', called) = finished (emit onSSE type data eid s) in (E', w'))"
| "server_step (Enqueue rid event data) (E, w) = (E, world_enqueue rid event data w)"
| "server_step Cleanup (E, w) =
     (let (n, e', q') = cleanup (sw_env w, sw_mq w) in (E, w\<lparr>sw_env := e', sw_mq := q'\<rparr>))"
| "server_step Clear (E, w) = (E, w\<lparr>sw_mq := clear (sw_mq w)\<rparr>)"
| "server_step (Subscribe l) (E, w) = (addListener ''sse'' l E, w)"
| "server_step (Unsubscribe l) (E, w) = (snd (removeListener ''sse'' l E), w)"
| "server_step (CloseStream c) (E, w) =
     (E, w\<lparr>sw_streams := (sw_streams w)(c := (sw_streams w c)\<lparr>stream_closed := True\<rparr>)\<rparr>)"
| "server_step (Deliver l event) (E, w) = (E, finished (onSSE l event w))"
| "server_step DrawId (E, w) = (E, w\<lparr>sw_env := snd (randomUUID (sw_env w))\<rparr>)"
| "server_step ReadClock (E, w) = (E, w\<lparr>sw_env := snd (Date_now (sw_env w))\<rparr>)"

definition server_steps ::
  "server_op list \<Rightarrow> sse_listener SSEEventEmitter \<times> server_world
   \<Rightarrow> sse_listener SSEEventEmitter \<times> server_world" where
  "server_steps ops s = foldl (\<lambda>s op. server_step op s) s ops"

section \<open>The reconnecting client (SSEClient.svelte.ts)\<close>

datatype ConnectionStatus = Connecting | Connected | Reconnecting | Disconnected

text \<open>The timers and the transport handle are present or absent; a pending reconnect
  timer carries its delay.\<close>

record SSEClient =
  client_status :: ConnectionStatus
  reconnectAttempts :: nat
  eventSource :: bool
  heartbeatTimer :: bool
  reconnectTimer :: "int option"

text \<open>
  \<open>calculateBackoff\<close> with the value of \<open>Math.random()\<close> as a parameter. JavaScript
  numbers are taken as real numbers. The code computes in IEEE doubles: the two agree
  wherever every product and sum is exact, as for the random value 0. For a random value
  next to 1 the code's sum can round up to a quarter more than the delay exactly, where
  the real sum stays below it, so the result over the reals can be one less than the
  code's (2499 for 2500, 74999 for 75000).
\<close>

definition exponentialDelay :: "nat \<Rightarrow> real" where
  "exponentialDelay attempts =
     min (real_of_int INITIAL_RECONNECT_DELAY * 2 ^ attempts) (real_of_int MAX_RECONNECT_DELAY)"

definition calculateBackoff :: "SSEClient \<Rightarrow> real \<Rightarrow> int" where
  "calculateBackoff c rnd =
     (let d = exponentialDelay (reconnectAttempts c);
          jitter = d * rnd * 0.25
      in \<lfloor>d + jitter\<rfloor>)"

definition client_cleanup :: "SSEClient \<Rightarrow> SSEClient" where
  "client_cleanup c = c\<lparr>heartbeatTimer := False, reconnectTimer := None, eventSource := False\<rparr>"

definition handleDisconnection :: "real \<Rightarrow> SSEClient \<Rightarrow> SSEClient" where
  "handleDisconnection rnd c =
     (let c1 = client_cleanup c;
          c2 = c1\<lparr>client_status := Reconnecting\<rparr>;
          c3 = c2\<lparr>reconnectAttempts := reconnectAttempts c2 + 1\<rparr>;
          delay = calculateBackoff c3 rnd
      in c3\<lparr>reconnectTimer := Some delay\<rparr>)"

text \<open>\<open>getReconnectDelay\<close>, the delay in seconds that the client shows for the
  current attempt.\<close>

definition getReconnectDelay :: "SSEClient \<Rightarrow> int option" where
  "getReconnectDelay c =
     (if client_status c \<noteq> Reconnecting then None
      else Some \<lceil>min (real_of_int INITIAL_RECONNECT_DELAY * 2 powr (real (reconnectAttempts c) - 1))
                     (real_of_int MAX_RECONNECT_DELAY) / 1000\<rceil>)"

definition new_SSEClient :: SSEClient where
  "new_SSEClient = \<lparr>client_status = Disconnected, reconnectAttempts = 0, eventSource = False,
                    heartbeatTimer = False, reconnectTimer = None\<rparr>"

text \<open>The client after \<open>k\<close> disconnections in a row, the \<open>i\<close>-th with the random
  value \<open>rnd i\<close>.\<close>

fun disconnections :: "(nat \<Rightarrow> real) \<Rightarrow> nat \<Rightarrow> SSEClient \<Rightarrow> SSEClient" where
  "disconnections rnd 0 c = c"
| "disconnections rnd (Suc k) c = handleDisconnection (rnd (Suc k)) (disconnections rnd k c)"

section \<open>Concrete states\<close>

text \<open>An environment whose ids are pairwise different, and a buffer holding one message.\<close>

definition ex_env :: env where
  "ex_env = \<lparr>uuid_src = (\<lambda>n. replicate (Suc n) CHR ''u''), uuid_used = 0,
             time_src = (\<lambda>n. int n), time_used = 0\<rparr>"

definition ex_message :: QueuedMessage where
  "ex_message = \<lparr>msg_id = ''u'', msg_event = ''chatMessage'', msg_data = ''{}'',
                 msg_timestamp = 0, msg_roomId = ''room1''\<rparr>"

definition ex_queue :: MessageQueue where
  "ex_queue = \<lparr>queues = [(''room1'', [ex_message])], ttl = 1000, maxSize = 10\<rparr>"

text \<open>A registry holding one connection of user \<open>alice\<close>.\<close>

definition ex_connection :: SSEConnection where
  "ex_connection = \<lparr>connectionId = ''u'', userId = ''alice'', connectedAt = 0, lastActivity = 0,
                      lastHeartbeat = 0, roomId = ''room1'', controller = Some 0\<rparr>"

definition ex_manager :: SSEManager where
  "ex_manager = \<lparr>connections = [(''u'', ex_connection)], userConnections = [(''alice'', [''u''])]\<rparr>"

section \<open>Observations on the catch-up buffer\<close>

text \<open>A room's log as \<open>getMessages\<close> sees it: the stored array, or none.\<close>

definition room_log :: "MessageQueue \<Rightarrow> string \<Rightarrow> QueuedMessage list" where
  "room_log q room = (case map_of (queues q) room of None \<Rightarrow> [] | Some queue \<Rightarrow> queue)"

text \<open>A sequence of \<open>enqueue\<close> calls, each with its room, event type and payload; the
  result lists the ids the calls returned, in call order.\<close>

fun enqueue_all ::
  "(string \<times> string \<times> string) list \<Rightarrow> env \<times> MessageQueue \<Rightarrow> string list \<times> env \<times> MessageQueue" where
  "enqueue_all [] (e, q) = ([], e, q)"
| "enqueue_all ((room, event, data) # rest) s =
     (let (i, e1, q1) = enqueue room event data s;
          (ids, e2, q2) = enqueue_all rest (e1, q1)
      in (i # ids, e2, q2))"

text \<open>What was enqueued for one room, in call order: the returned id, the event type
  and the payload of each call for that room.\<close>

definition entries_for ::
  "string \<Rightarrow> string list \<Rightarrow> (string \<times> string \<times> string) list \<Rightarrow> (string \<times> string \<times> string) list" where
  "entries_for room ids calls =
     map (\<lambda>(i, r, event, data). (i, event, data))
       (filter (\<lambda>(i, r, event, data). r = room) (zip ids calls))"

definition entry_of :: "QueuedMessage \<Rightarrow> string \<times> string \<times> string" where
  "entry_of m = (msg_id m, msg_event m, msg_data m)"

text \<open>The message that \<open>enqueue\<close> builds in environment \<open>e\<close>, the environment it
  leaves, and the trimming it applies to the array after the push.\<close>

definition new_message :: "string \<Rightarrow> string \<Rightarrow> string \<Rightarrow> env \<Rightarrow> QueuedMessage" where
  "new_message room event data e =
     \<lparr>msg_id = uuid_src e (uuid_used e), msg_event = event, msg_data = data,
      msg_timestamp = time_src e (time_used e), msg_roomId = room\<rparr>"

definition env_after_enqueue :: "env \<Rightarrow> env" where
  "env_after_enqueue e = e\<lparr>uuid_used := Suc (uuid_used e), time_used := Suc (time_used e)\<rparr>"

definition trim :: "int \<Rightarrow> 'a list \<Rightarrow> 'a list" where
  "trim m xs = (if int (length xs) > m then js_slice (- m) xs else xs)"

section \<open>Observations on the event bus\<close>

text \<open>A channel's listener set as \<open>emit\<close> copies it: the stored set, or none.\<close>

definition channel_listeners :: "'l SSEEventEmitter \<Rightarrow> string \<Rightarrow> 'l list" where
  "channel_listeners E channel = (case map_of (listeners E) channel of None \<Rightarrow> [] | Some cl \<Rightarrow> cl)"

fun threw :: "'a outcome \<Rightarrow> bool" where
  "threw (Threw _) = True"
| "threw (Returned _) = False"

text \<open>Two listeners on the \<open>'sse'\<close> channel: listener 0 throws on every event,
  every other listener appends its name to a log of deliveries.\<close>

definition ex_call :: "(nat, nat list) invoke" where
  "ex_call l ev w = (if l = 0 then Threw w else Returned (w @ [l]))"

definition ex_emitter :: "nat SSEEventEmitter" where
  "ex_emitter = \<lparr>listeners = [(''sse'', [0, 1])], maxListeners = 100, listenerCount = 2\<rparr>"

definition ex_emitter_after :: "nat SSEEventEmitter" where
  "ex_emitter_after = \<lparr>listeners = [(''sse'', [1])], maxListeners = 100, listenerCount = 1\<rparr>"

text \<open>
  A sequence of calls on the emitter that never adds a listener to a channel whose set
  already holds it; an emitter whose global count equals the sum of its channels' set
  sizes, with each channel stored once and each set free of duplicates; the sum of the
  set sizes of a list of channels.
\<close>

fun fresh_adds :: "'l emitter_op list \<Rightarrow> 'l SSEEventEmitter \<Rightarrow> bool" where
  "fresh_adds [] E = True"
| "fresh_adds (AddListener c l # cs) E =
     (l \<notin> set (channel_listeners E c) \<and> fresh_adds cs (addListener c l E))"
| "fresh_adds (op # cs) E = fresh_adds cs (emitter_call op E)"

definition counted :: "'l SSEEventEmitter \<Rightarrow> bool" where
  "counted E =
     (listenerCount E = channel_sizes_sum E \<and> distinct (map fst (listeners E))
      \<and> (\<forall>c cl. map_of (listeners E) c = Some cl \<longrightarrow> distinct cl))"

definition sizes :: "(string \<times> 'l list) list \<Rightarrow> int" where
  "sizes al = sum_list (map (\<lambda>(c, cl). int (length cl)) al)"

section \<open>Observations on the registry\<close>

text \<open>The connection ids that a user owns in the connection table; the user map mirrors
  the table when each user's set holds exactly the ids the user owns and no user with
  nothing owned has a set; the ids in the table were all drawn from the environment.\<close>

definition owned :: "SSEManager \<Rightarrow> string \<Rightarrow> string set" where
  "owned m uid = {cid. \<exists>c. map_of (connections m) cid = Some c \<and> userId c = uid}"

definition mirrors :: "SSEManager \<Rightarrow> bool" where
  "mirrors m =
     (\<forall>uid. case map_of (userConnections m) uid of
              None \<Rightarrow> owned m uid = {}
            | Some uc \<Rightarrow> uc \<noteq> [] \<and> set uc = owned m uid)"

definition ids_drawn :: "env \<Rightarrow> SSEManager \<Rightarrow> bool" where
  "ids_drawn e m =
     (\<forall>cid. map_of (connections m) cid \<noteq> None \<longrightarrow> (\<exists>j<uuid_used e. cid = uuid_src e j))"

text \<open>Three tabs open, one heartbeat is acknowledged, two tabs close, one of them twice.\<close>

definition ex_calls :: "manager_op list" where
  "ex_calls = [AddConnection ''alice'' ''room1'' 0, AddConnection ''alice'' ''room1'' 1,
               AddConnection ''bob'' ''room1'' 2, AcknowledgeHeartbeat ''uu'',
               RemoveConnection ''u'', RemoveConnection ''uuu'', RemoveConnection ''uuu'']"

definition ex_manager_after :: SSEManager where
  "ex_manager_after =
     \<lparr>connections = [(''uu'', \<lparr>connectionId = ''uu'', userId = ''alice'', connectedAt = 1,
                              lastActivity = 4, lastHeartbeat = 3, roomId = ''room1'',
                              controller = Some 1\<rparr>)],
      userConnections = [(''alice'', [''uu''])]\<rparr>"

section \<open>Observations on the server\<close>

text \<open>The ids carried by the entries of the buffer, over all rooms; the ids drawn so
  far at positions outside \<open>K\<close>; and the statement that every id in the buffer was drawn
  at a position outside \<open>K\<close>, where \<open>K\<close> holds positions already used.\<close>

definition all_messages :: "(string \<times> QueuedMessage list) list \<Rightarrow> QueuedMessage set" where
  "all_messages qs = (\<Union>(room, queue)\<in>set qs. set queue)"

definition ids_in_queue :: "MessageQueue \<Rightarrow> string set" where
  "ids_in_queue q = msg_id ` all_messages (queues q)"

definition drawn_ids :: "nat set \<Rightarrow> env \<Rightarrow> string set" where
  "drawn_ids K e = uuid_src e ` ({..<uuid_used e} - K)"

definition log_ids_drawn :: "nat set \<Rightarrow> server_world \<Rightarrow> bool" where
  "log_ids_drawn K w =
     (K \<subseteq> {..<uuid_used (sw_env w)} \<and> ids_in_queue (sw_mq w) \<subseteq> drawn_ids K (sw_env w))"

text \<open>The buffer's ids were drawn outside \<open>K\<close> from the id sequence \<open>U\<close>. The log
  of room \<open>r\<close> ends with an entry of the given event type and payload whose id was drawn
  at position \<open>n0\<close> or later.\<close>

definition drawn_from :: "(nat \<Rightarrow> string) \<Rightarrow> nat set \<Rightarrow> server_world \<Rightarrow> bool" where
  "drawn_from U K w = (log_ids_drawn K w \<and> uuid_src (sw_env w) = U)"

definition fresh_tail :: "nat \<Rightarrow> string \<Rightarrow> string \<Rightarrow> string \<Rightarrow> server_world \<Rightarrow> bool" where
  "fresh_tail n0 r event data w =
     (n0 \<le> uuid_used (sw_env w) \<and> 0 \<le> maxSize (sw_mq w) \<and> room_log (sw_mq w) r \<noteq> []
      \<and> msg_event (last (room_log (sw_mq w) r)) = event
      \<and> msg_data (last (room_log (sw_mq w) r)) = data
      \<and> (\<exists>j\<ge>n0. msg_id (last (room_log (sw_mq w) r)) = uuid_src (sw_env w) j))"

text \<open>A server whose buffer holds one message of room \<open>room1\<close>, a bus with one endpoint
  listening for that room, and a server whose one message is filed under the empty room
  id.\<close>

definition ex_world :: server_world where
  "ex_world = \<lparr>sw_env = ex_env\<lparr>uuid_used := 1, time_used := 1\<rparr>, sw_mq = ex_queue,
               sw_streams = (\<lambda>c. \<lparr>stream_closed = False, stream_chunks = []\<rparr>)\<rparr>"

definition ex_bus :: "sse_listener SSEEventEmitter" where
  "ex_bus = \<lparr>listeners = [(''sse'', [OnSSE 0 ''room1''])], maxListeners = 100, listenerCount = 1\<rparr>"

definition ex_blank_world :: server_world where
  "ex_blank_world =
     \<lparr>sw_env = ex_env\<lparr>uuid_used := 1, time_used := 1\<rparr>,
      sw_mq = \<lparr>queues = [('''', [ex_message\<lparr>msg_roomId := ''''\<rparr>])],
               ttl = MESSAGE_QUEUE_TTL, maxSize = MESSAGE_QUEUE_MAX_SIZE\<rparr>,
      sw_streams = (\<lambda>c. \<lparr>stream_closed = False, stream_chunks = []\<rparr>)\<rparr>"

definition ex_event :: SSEEvent where
  "ex_event = \<lparr>ev_type = chatMessage, ev_data = ''hi'', ev_id = None\<rparr>"

section \<open>Facts about the containers\<close>

lemma findIndex_ge: "- 1 \<le> findIndex P xs"
  by (induction xs) (auto simp: Let_def)

lemma findIndex_none: "(findIndex P xs = - 1) = (\<forall>x\<in>set xs. \<not> P x)"
proof (induction xs)
  case Nil
  show ?case by simp
next
  case (Cons x xs)
  have "- 1 \<le> findIndex P xs" by (rule findIndex_ge)
  with Cons show ?case by (auto simp: Let_def)
qed

lemma js_slice_tail: "0 < n \<Longrightarrow> js_slice (- n) xs = drop (length xs - nat n) xs"
  by (auto simp: js_slice_def Let_def max_def nat_diff_distrib' intro: arg_cong [where f = "\<lambda>k. drop k xs"])

lemma js_slice_tail_50: "js_slice (- 50) xs = drop (length xs - 50) xs"
  using js_slice_tail [of 50 xs] by simp

section \<open>The recent-tail fallback\<close>

text \<open>
  C6. In a room whose log is not empty, \<open>getMessagesSince\<close> with an id that no entry of
  the log carries returns the last 50 entries of the log (the whole log when it has at
  most 50): at most 50 entries, and not the whole log when the log is longer. For a room
  with no log it returns the empty list. The function has no failing branch.
\<close>

theorem getMessagesSince_unknown_id:
  "(map_of (queues q) room = Some queue \<and> queue \<noteq> [] \<and> lastEventId \<notin> msg_id ` set queue
      \<longrightarrow> getMessagesSince q room lastEventId = drop (length queue - 50) queue
        \<and> length (getMessagesSince q room lastEventId) = min 50 (length queue)
        \<and> (50 < length queue \<longrightarrow> getMessagesSince q room lastEventId \<noteq> queue))
   \<and> (map_of (queues q) room = None \<longrightarrow> getMessagesSince q room lastEventId = [])"
proof -
  have none: "map_of (queues q) room = None \<Longrightarrow> getMessagesSince q room lastEventId = []"
    by (simp add: getMessagesSince_def)
  have some: "getMessagesSince q room lastEventId = drop (length queue - 50) queue"
    if h: "map_of (queues q) room = Some queue" "queue \<noteq> []"
          "lastEventId \<notin> msg_id ` set queue"
  proof -
    have "findIndex (\<lambda>m. msg_id m = lastEventId) queue = - 1"
      using h(3) by (auto simp: findIndex_none)
    then show ?thesis
      using h(1,2) by (simp add: getMessagesSince_def js_slice_tail_50)
  qed
  have neq: "drop (length queue - 50) queue \<noteq> queue" if "50 < length queue"
  proof
    assume "drop (length queue - 50) queue = queue"
    then have "length (drop (length queue - 50) queue) = length queue" by simp
    with that show False by simp
  qed
  show ?thesis using none some neq by auto
qed

theorem getMessagesSince_unknown_id_witness:
  "getMessagesSince ex_queue ''room1'' ''unknown-id'' = [ex_message]
   \<and> length (getMessagesSince ex_queue ''room1'' ''unknown-id'') = 1
   \<and> getMessagesSince ex_queue ''nonexistent'' ''some-id'' = []"
proof -
  have h1: "map_of (queues ex_queue) ''room1'' = Some [ex_message] \<and> [ex_message] \<noteq> []
            \<and> ''unknown-id'' \<notin> msg_id ` set [ex_message]"
    by (simp add: ex_queue_def ex_message_def)
  have h2: "map_of (queues ex_queue) ''nonexistent'' = None"
    by (simp add: ex_queue_def)
  show ?thesis
    using h1 h2
      getMessagesSince_unknown_id [of ex_queue "''room1''" "[ex_message]" "''unknown-id''"]
      getMessagesSince_unknown_id [of ex_queue "''nonexistent''" "[]" "''some-id''"]
    by simp
qed

section \<open>Removing a connection that is not there\<close>

lemma ex_manager_reached:
  "addConnection ''alice'' ''room1'' 0 (ex_env, new_SSEManager)
     = ((''u'', True), ex_env\<lparr>uuid_used := 1, time_used := 1\<rparr>, ex_manager)"
  by (simp add: addConnection_def ex_env_def new_SSEManager_def randomUUID_def Date_now_def
      ex_manager_def ex_connection_def set_add_def)

text \<open>
  C8. \<open>removeConnection\<close> with an id that the connection table does not hold reports
  \<open>removed = false\<close>, \<open>isLastConnection = false\<close>, \<open>userId = null\<close> and returns
  the registry as it was: the connection table and the user map are both unchanged.
\<close>

theorem removeConnection_absent:
  "map_of (connections m) cid = None \<Longrightarrow>
   removeConnection cid m
     = (\<lparr>removed = False, isLastConnection = False, removed_userId = None\<rparr>, m)"
  by (simp add: removeConnection_def)

theorem removeConnection_absent_witness:
  "removeConnection ''u'' (snd (removeConnection ''u'' ex_manager))
     = (\<lparr>removed = False, isLastConnection = False, removed_userId = None\<rparr>, new_SSEManager)"
proof -
  have first: "snd (removeConnection ''u'' ex_manager) = new_SSEManager"
    by (simp add: removeConnection_def ex_manager_def ex_connection_def set_delete_def
        new_SSEManager_def)
  have absent: "map_of (connections new_SSEManager) ''u'' = None"
    by (simp add: new_SSEManager_def)
  show ?thesis
    using removeConnection_absent [OF absent] first by simp
qed

section \<open>A heartbeat acknowledgment for somebody else's connection\<close>

text \<open>
  C9. An authenticated caller acknowledges a heartbeat for a registered connection that
  another user owns (the request names the connection by its id, a non-empty string, as
  every id drawn from \<open>crypto.randomUUID\<close> is). The endpoint answers 403 with
  \<open>success = false\<close>, and the registry and the environment are returned as they were:
  no timestamp of the connection is written, neither map changes, the clock is not read.
\<close>

theorem POST_other_owner:
  "\<lbrakk>getConnection m cid = Some connection; userId connection \<noteq> caller; cid \<noteq> []\<rbrakk> \<Longrightarrow>
   POST (Some caller) (JsonBody (Str cid)) (e, m)
     = (\<lparr>resp_status = 403, resp_success = False, resp_error = Some ''Unauthorized''\<rparr>, e, m)"
  by (simp add: POST_def json_response_def)

theorem POST_other_owner_witness:
  "POST (Some ''bob'') (JsonBody (Str ''u'')) (ex_env, ex_manager)
     = (\<lparr>resp_status = 403, resp_success = False, resp_error = Some ''Unauthorized''\<rparr>,
        ex_env, ex_manager)
   \<and> map_option lastHeartbeat (getConnection ex_manager ''u'') = Some 0"
proof -
  have c: "getConnection ex_manager ''u'' = Some ex_connection"
    by (simp add: getConnection_def ex_manager_def)
  have o: "userId ex_connection \<noteq> ''bob''"
    by (simp add: ex_connection_def)
  have n: "''u'' \<noteq> []" by simp
  show ?thesis
    using POST_other_owner [OF c o n, of ex_env] c by (simp add: ex_connection_def)
qed

section \<open>The size bound of the catch-up buffer\<close>

lemma enqueue_eq:
  "enqueue room event data (e, q) =
     (uuid_src e (uuid_used e), env_after_enqueue e,
      q\<lparr>queues := AList.update room (trim (maxSize q) (room_log q room @ [new_message room event data e])) (queues q)\<rparr>)"
  by (simp add: enqueue_def randomUUID_def Date_now_def Let_def room_log_def new_message_def
      env_after_enqueue_def trim_def split: option.splits)

lemma room_log_enqueue:
  "room_log (snd (snd (enqueue room event data (e, q)))) r =
     (if r = room then trim (maxSize q) (room_log q room @ [new_message room event data e])
      else room_log q r)"
  by (simp add: enqueue_eq room_log_def AList.update_conv')

lemma trim_pos: "0 < m \<Longrightarrow> trim m xs = drop (length xs - nat m) xs"
  by (simp add: trim_def js_slice_tail)

lemma length_trim_pos: "0 < m \<Longrightarrow> int (length (trim m xs)) \<le> m"
  by (simp add: trim_pos)

lemma drop_drop_snoc:
  "0 < k \<Longrightarrow> drop (length (drop (length xs - k) xs @ [x]) - k) (drop (length xs - k) xs @ [x])
     = drop (length (xs @ [x]) - k) (xs @ [x])"
  by (cases "length xs < k") (auto simp: Suc_diff_le)

lemma enqueue_all_log:
  assumes m: "0 < maxSize q"
    and inv: "map entry_of (room_log q room) = drop (length h - nat (maxSize q)) h"
    and run: "enqueue_all calls (e, q) = (ids, e', q')"
  shows "map entry_of (room_log q' room)
           = drop (length (h @ entries_for room ids calls) - nat (maxSize q))
                  (h @ entries_for room ids calls)
         \<and> maxSize q' = maxSize q"
  using assms
proof (induction calls arbitrary: e q h ids)
  case Nil
  then show ?case by (auto simp: entries_for_def)
next
  case (Cons c calls)
  obtain r ev d where c: "c = (r, ev, d)" by (cases c) auto
  let ?q1 = "snd (snd (enqueue r ev d (e, q)))"
  let ?e1 = "env_after_enqueue e"
  let ?i = "uuid_src e (uuid_used e)"
  have step: "enqueue r ev d (e, q) = (?i, ?e1, ?q1)" by (simp add: enqueue_eq)
  obtain ids1 where run1: "enqueue_all calls (?e1, ?q1) = (ids1, e', q')" and ids: "ids = ?i # ids1"
    using Cons.prems(3) c step by (auto simp: Let_def split: prod.splits)
  have ms: "maxSize ?q1 = maxSize q" by (simp add: enqueue_eq)
  let ?h1 = "if r = room then h @ [(?i, ev, d)] else h"
  have inv1: "map entry_of (room_log ?q1 room) = drop (length ?h1 - nat (maxSize ?q1)) ?h1"
  proof (cases "r = room")
    case True
    have k: "0 < nat (maxSize q)" using Cons.prems(1) by simp
    have "map entry_of (room_log ?q1 room)
            = drop (length (room_log q room @ [new_message room ev d e]) - nat (maxSize q))
                (map entry_of (room_log q room) @ [(?i, ev, d)])"
      using True Cons.prems(1) by (simp add: room_log_enqueue trim_pos drop_map entry_of_def new_message_def)
    also have "length (room_log q room @ [new_message room ev d e])
                 = length (map entry_of (room_log q room) @ [(?i, ev, d)])" by simp
    finally show ?thesis
      using True Cons.prems(2) drop_drop_snoc [OF k, of h "(?i, ev, d)"] ms by simp
  next
    case False
    then show ?thesis using Cons.prems(2) ms by (simp add: room_log_enqueue)
  qed
  have "map entry_of (room_log q' room)
           = drop (length (?h1 @ entries_for room ids1 calls) - nat (maxSize ?q1))
                  (?h1 @ entries_for room ids1 calls)
         \<and> maxSize q' = maxSize ?q1"
    using Cons.IH [OF _ inv1 run1] Cons.prems(1) ms by simp
  moreover have "?h1 @ entries_for room ids1 calls = h @ entries_for room ids (c # calls)"
    by (simp add: entries_for_def ids c)
  ultimately show ?case using ms by simp
qed

text \<open>
  With a maximum size of at least one, after any sequence of \<open>enqueue\<close> calls on a new
  buffer every room's log is no longer than the maximum, and its entries are the most
  recent ones enqueued for the room, in the order of the calls.
\<close>

lemma enqueue_keeps_most_recent:
  assumes "0 < m" and "enqueue_all calls (e, new_MessageQueue t m) = (ids, e', q')"
  shows "int (length (room_log q' room)) \<le> m
       \<and> map entry_of (room_log q' room)
           = drop (length (entries_for room ids calls) - nat m) (entries_for room ids calls)"
proof -
  have m: "0 < maxSize (new_MessageQueue t m)"
    using assms(1) by (simp add: new_MessageQueue_def)
  have "map entry_of (room_log (new_MessageQueue t m) room)
          = drop (length ([] :: (string \<times> string \<times> string) list) - nat (maxSize (new_MessageQueue t m))) []"
    by (simp add: room_log_def new_MessageQueue_def)
  from enqueue_all_log [OF m this assms(2)]
  have eq: "map entry_of (room_log q' room)
           = drop (length (entries_for room ids calls) - nat m) (entries_for room ids calls)"
    by (simp add: new_MessageQueue_def)
  have "length (room_log q' room) = length (map entry_of (room_log q' room))" by simp
  also have "\<dots> \<le> nat m" by (simp only: eq) simp
  finally have "int (length (room_log q' room)) \<le> m" using assms(1) by linarith
  then show ?thesis using eq by simp
qed

lemma enqueue_keeps_most_recent_example:
  "map entry_of
     (room_log (snd (snd (enqueue_all [(''room1'', ''chatMessage'', ''1''),
                                        (''room2'', ''chatMessage'', ''x''),
                                        (''room1'', ''chatMessage'', ''2''),
                                        (''room1'', ''chatMessage'', ''3'')]
                                       (ex_env, new_MessageQueue 1000 2)))) ''room1'')
     = [(''uuu'', ''chatMessage'', ''2''), (''uuuu'', ''chatMessage'', ''3'')]"
proof -
  obtain ids e' q' where run:
    "enqueue_all [(''room1'', ''chatMessage'', ''1''), (''room2'', ''chatMessage'', ''x''),
                  (''room1'', ''chatMessage'', ''2''), (''room1'', ''chatMessage'', ''3'')]
       (ex_env, new_MessageQueue 1000 2) = (ids, e', q')"
    by (metis prod_cases3)
  have ids: "ids = [''u'', ''uu'', ''uuu'', ''uuuu'']"
    using run by (simp add: enqueue_eq env_after_enqueue_def ex_env_def)
  have pos: "(0::int) < 2" by simp
  show ?thesis
    using enqueue_keeps_most_recent [OF pos run, of "''room1''"] run ids
    by (simp add: entries_for_def)
qed

text \<open>
  C5. With a maximum size of zero the bound fails at the first call: the pushed array has
  length one, which is more than zero, and \<open>queue.slice(-0)\<close> is the whole array, so
  the room's log keeps one entry (and every later one).
\<close>

theorem enqueue_maxSize_zero:
  "room_log (snd (snd (enqueue ''room1'' ''chatMessage'' ''{}'' (ex_env, new_MessageQueue 1000 0))))
     ''room1'' = [ex_message]
   \<and> maxSize (snd (snd (enqueue ''room1'' ''chatMessage'' ''{}''
                            (ex_env, new_MessageQueue 1000 0)))) = 0"
  by (simp add: enqueue_def ex_env_def new_MessageQueue_def randomUUID_def Date_now_def
      ex_message_def js_slice_def room_log_def)

section \<open>A listener that throws\<close>

lemma channel_removeListener:
  "channel_listeners (snd (removeListener c l E)) c = removeAll l (channel_listeners E c)"
  by (auto simp: removeListener_def channel_listeners_def set_delete_def Let_def
      AList.update_conv' AList.delete_conv' split: option.splits)

lemma emit_loop_called:
  "emit_loop call ev ls (E, w, called) = (E', w', called') \<Longrightarrow> called' = called @ ls"
proof (induction ls arbitrary: E w called)
  case Nil
  then show ?case by simp
next
  case (Cons l ls)
  show ?case
  proof (cases "call l ev w")
    case (Returned w1)
    with Cons.prems have "emit_loop call ev ls (E, w1, called @ [l]) = (E', w', called')"
      by simp
    from Cons.IH [OF this] show ?thesis by simp
  next
    case (Threw w1)
    with Cons.prems have
      "emit_loop call ev ls (snd (removeListener ''sse'' l E), w1, called @ [l]) = (E', w', called')"
      by simp
    from Cons.IH [OF this] show ?thesis by simp
  qed
qed

lemma emit_loop_subset:
  "emit_loop call ev ls (E, w, called) = (E', w', called') \<Longrightarrow>
   set (channel_listeners E' ''sse'') \<subseteq> set (channel_listeners E ''sse'')"
proof (induction ls arbitrary: E w called)
  case Nil
  then show ?case by simp
next
  case (Cons l ls)
  show ?case
  proof (cases "call l ev w")
    case (Returned w1)
    with Cons show ?thesis by auto
  next
    case (Threw w1)
    with Cons.prems have
      "emit_loop call ev ls (snd (removeListener ''sse'' l E), w1, called @ [l]) = (E', w', called')"
      by simp
    from Cons.IH [OF this] show ?thesis
      by (auto simp: channel_removeListener)
  qed
qed

lemma emit_loop_removes:
  "\<lbrakk>emit_loop call ev ls (E, w, called) = (E', w', called'); l \<in> set ls;
    \<And>w. threw (call l ev w)\<rbrakk> \<Longrightarrow>
   l \<notin> set (channel_listeners E' ''sse'')"
proof (induction ls arbitrary: E w called)
  case Nil
  then show ?case by simp
next
  case (Cons x ls)
  show ?case
  proof (cases "call x ev w")
    case (Returned w1)
    with Cons.prems(3) [of w] have "x \<noteq> l" by auto
    with Cons Returned show ?thesis by auto
  next
    case (Threw w1)
    with Cons.prems have run:
      "emit_loop call ev ls (snd (removeListener ''sse'' x E), w1, called @ [x]) = (E', w', called')"
      by simp
    show ?thesis
    proof (cases "x = l")
      case True
      from emit_loop_subset [OF run] show ?thesis
        by (auto simp: channel_removeListener True)
    next
      case False
      with Cons.prems(2) have "l \<in> set ls" by simp
      from Cons.IH [OF run this Cons.prems(3)] show ?thesis .
    qed
  qed
qed

lemma emit_loop_keeps:
  "\<lbrakk>emit_loop call ev ls (E, w, called) = (E', w', called');
    l \<in> set (channel_listeners E ''sse''); \<And>w. \<not> threw (call l ev w)\<rbrakk> \<Longrightarrow>
   l \<in> set (channel_listeners E' ''sse'')"
proof (induction ls arbitrary: E w called)
  case Nil
  then show ?case by simp
next
  case (Cons x ls)
  show ?case
  proof (cases "call x ev w")
    case (Returned w1)
    with Cons show ?thesis by auto
  next
    case (Threw w1)
    with Cons.prems(3) [of w] have "x \<noteq> l" by auto
    then have "l \<in> set (channel_listeners (snd (removeListener ''sse'' x E)) ''sse'')"
      using Cons.prems(2) by (simp add: channel_removeListener)
    moreover from Threw Cons.prems have
      "emit_loop call ev ls (snd (removeListener ''sse'' x E), w1, called @ [x]) = (E', w', called')"
      by simp
    ultimately show ?thesis using Cons.IH Cons.prems(3) by blast
  qed
qed

lemma emit_cases:
  "\<exists>E' w' called. emit call ty d i (E, w) = Returned (E', w', called)
     \<and> called = channel_listeners E ''sse''
     \<and> emit_loop call \<lparr>ev_type = ty, ev_data = d, ev_id = i\<rparr> (channel_listeners E ''sse'') (E, w, [])
         = (E', w', called)"
proof (cases "channel_listeners E ''sse''")
  case Nil
  then show ?thesis
    by (auto simp: emit_def channel_listeners_def split: option.splits)
next
  case (Cons l ls)
  obtain E' w' called where
    run: "emit_loop call \<lparr>ev_type = ty, ev_data = d, ev_id = i\<rparr> (l # ls) (E, w, []) = (E', w', called)"
    by (metis prod_cases3)
  from emit_loop_called [OF run] have "called = l # ls" by simp
  with run Cons show ?thesis
    by (auto simp: emit_def channel_listeners_def split: option.splits)
qed

lemma emits_always_call:
  "\<lbrakk>l \<in> set (channel_listeners E ''sse''); \<And>ev w. \<not> threw (call l ev w)\<rbrakk> \<Longrightarrow>
   length (emits call evs (E, w)) = length evs \<and> (\<forall>c\<in>set (emits call evs (E, w)). l \<in> set c)"
proof (induction evs arbitrary: E w)
  case Nil
  then show ?case by simp
next
  case (Cons x evs)
  obtain ty d i where x: "x = (ty, d, i)" by (cases x) auto
  from emit_cases [of call ty d i E w] obtain E' w' called where
    e: "emit call ty d i (E, w) = Returned (E', w', called)"
    and c: "called = channel_listeners E ''sse''"
    and run: "emit_loop call \<lparr>ev_type = ty, ev_data = d, ev_id = i\<rparr>
                (channel_listeners E ''sse'') (E, w, []) = (E', w', called)"
    by blast
  have "l \<in> set (channel_listeners E' ''sse'')"
    using emit_loop_keeps [OF run Cons.prems(1)] Cons.prems(2) by blast
  from Cons.IH [OF this Cons.prems(2), of w'] show ?case
    using x e c Cons.prems(1) by simp
qed

lemma ex_emitter_reached:
  "emitter_calls [AddListener ''sse'' 0, AddListener ''sse'' 1] new_SSEEventEmitter = ex_emitter"
  by (simp add: emitter_calls_def addListener_def new_SSEEventEmitter_def set_add_def ex_emitter_def)

text \<open>
  C7. The \<open>'sse'\<close> channel holds a listener \<open>L1\<close> that throws on the event and, later
  in registration order, a listener \<open>L2\<close> that never throws. Then \<open>emit\<close> returns
  (no exception leaves it), it has called every listener of the channel in registration
  order, \<open>L2\<close> after \<open>L1\<close>; afterwards \<open>L1\<close> is no longer in the channel and \<open>L2\<close>
  still is; and every later \<open>emit\<close>, whatever the events, returns and calls \<open>L2\<close>.
\<close>

theorem emit_throwing_listener:
  assumes reg: "map_of (listeners E) ''sse'' = Some (pre @ L1 # mid @ L2 # post)"
    and bad: "\<And>w. threw (call L1 \<lparr>ev_type = ty, ev_data = d, ev_id = i\<rparr> w)"
    and good: "\<And>ev w. \<not> threw (call L2 ev w)"
  shows "\<exists>E' w'. emit call ty d i (E, w) = Returned (E', w', pre @ L1 # mid @ L2 # post)
           \<and> L1 \<notin> set (channel_listeners E' ''sse'')
           \<and> L2 \<in> set (channel_listeners E' ''sse'')
           \<and> (\<forall>evs. length (emits call evs (E', w')) = length evs
                    \<and> (\<forall>c\<in>set (emits call evs (E', w')). L2 \<in> set c))"
proof -
  have ch: "channel_listeners E ''sse'' = pre @ L1 # mid @ L2 # post"
    using reg by (simp add: channel_listeners_def)
  from emit_cases [of call ty d i E w] obtain E' w' called where
    e: "emit call ty d i (E, w) = Returned (E', w', called)"
    and c: "called = channel_listeners E ''sse''"
    and run: "emit_loop call \<lparr>ev_type = ty, ev_data = d, ev_id = i\<rparr>
                (channel_listeners E ''sse'') (E, w, []) = (E', w', called)"
    by blast
  have gone: "L1 \<notin> set (channel_listeners E' ''sse'')"
    using emit_loop_removes [OF run _ bad] ch by simp
  have kept: "L2 \<in> set (channel_listeners E' ''sse'')"
    using emit_loop_keeps [OF run _ good] ch by simp
  have later: "length (emits call evs (E', w')) = length evs
                 \<and> (\<forall>c\<in>set (emits call evs (E', w')). L2 \<in> set c)" for evs
    by (rule emits_always_call [OF kept]) (rule good)
  have ret: "emit call ty d i (E, w) = Returned (E', w', pre @ L1 # mid @ L2 # post)"
    using e c ch by simp
  show ?thesis
    by (intro exI [of _ E'] exI [of _ w'] conjI allI ret gone kept later [THEN conjunct1]
        later [THEN conjunct2])
qed

theorem emit_throwing_listener_witness:
  "emit ex_call buddyListUpdate ''[]'' None (ex_emitter, []) = Returned (ex_emitter_after, [1], [0, 1])
   \<and> 0 \<notin> set (channel_listeners ex_emitter_after ''sse'')
   \<and> 1 \<in> set (channel_listeners ex_emitter_after ''sse'')
   \<and> emits ex_call [(chatMessage, ''{}'', None), (heartbeat, ''{}'', None)] (ex_emitter_after, [1])
       = [[1], [1]]"
proof -
  have reg: "map_of (listeners ex_emitter) ''sse'' = Some ([] @ 0 # [] @ 1 # [])"
    by (simp add: ex_emitter_def)
  have bad: "\<And>w. threw (ex_call 0 \<lparr>ev_type = buddyListUpdate, ev_data = ''[]'', ev_id = None\<rparr> w)"
    by (simp add: ex_call_def)
  have good: "\<And>ev w. \<not> threw (ex_call 1 ev w)"
    by (simp add: ex_call_def)
  have run: "emit ex_call buddyListUpdate ''[]'' None (ex_emitter, [])
               = Returned (ex_emitter_after, [1], [0, 1])"
    by (simp add: emit_def ex_emitter_def ex_emitter_after_def ex_call_def removeListener_def
        set_delete_def)
  from emit_throwing_listener [of ex_emitter "[]" 0 "[]" 1 "[]" ex_call, OF reg bad good, of "[]"]
  obtain E' w' where
    r: "emit ex_call buddyListUpdate ''[]'' None (ex_emitter, []) = Returned (E', w', [] @ 0 # [] @ 1 # [])"
    and g: "0 \<notin> set (channel_listeners E' ''sse'')"
    and k: "1 \<in> set (channel_listeners E' ''sse'')"
    by blast
  from r run have E': "E' = ex_emitter_after" and w': "w' = [1]" by simp_all
  have later: "emits ex_call [(chatMessage, ''{}'', None), (heartbeat, ''{}'', None)]
                 (ex_emitter_after, [1]) = [[1], [1]]"
    by (simp add: emit_def ex_emitter_after_def ex_call_def)
  show ?thesis using run g k later E' w' by simp
qed

section \<open>The global listener count\<close>

text \<open>As long as no listener is added to a channel that already holds it, the global
  count equals the sum of the channels' set sizes after every sequence of calls.\<close>

lemma sizes_update:
  "sizes (AList.update k v al)
     = sizes al - (case map_of al k of None \<Rightarrow> 0 | Some v0 \<Rightarrow> int (length v0)) + int (length v)"
  by (induction al) (auto simp: sizes_def)

lemma sizes_delete_absent: "k \<notin> fst ` set al \<Longrightarrow> sizes (AList.delete k al) = sizes al"
  by (induction al) (auto simp: sizes_def)

lemma sizes_delete:
  "distinct (map fst al) \<Longrightarrow>
   sizes (AList.delete k al)
     = sizes al - (case map_of al k of None \<Rightarrow> 0 | Some v0 \<Rightarrow> int (length v0))"
proof (induction al)
  case Nil
  then show ?case by (simp add: sizes_def)
next
  case (Cons p al)
  obtain c cl where p: "p = (c, cl)" by (cases p)
  show ?case
  proof (cases "c = k")
    case True
    with Cons.prems p have "k \<notin> fst ` set al" by auto
    then have "sizes (AList.delete k al) = sizes al" by (rule sizes_delete_absent)
    with True p show ?thesis by (simp add: sizes_def)
  next
    case False
    with Cons p show ?thesis by (simp add: sizes_def)
  qed
qed

lemma length_removeAll_distinct:
  "\<lbrakk>distinct xs; x \<in> set xs\<rbrakk> \<Longrightarrow> int (length (removeAll x xs)) = int (length xs) - 1"
  by (induction xs) auto

lemma counted_new: "counted new_SSEEventEmitter"
  by (simp add: counted_def new_SSEEventEmitter_def channel_sizes_sum_def)

lemma addListener_eq:
  "addListener c l E =
     E\<lparr>listeners := AList.update c (set_add l (channel_listeners E c)) (listeners E),
       listenerCount := listenerCount E + 1\<rparr>"
  by (auto simp: addListener_def Let_def channel_listeners_def AList.update_conv'
      split: option.splits)

lemma counted_addListener:
  assumes "counted E" "l \<notin> set (channel_listeners E c)"
  shows "counted (addListener c l E)"
proof -
  let ?old = "channel_listeners E c"
  have add: "set_add l ?old = ?old @ [l]" using assms(2) by (simp add: set_add_def)
  have d: "distinct ?old"
    using assms(1) by (auto simp: counted_def channel_listeners_def split: option.splits)
  have "sizes (listeners (addListener c l E)) = sizes (listeners E) + 1"
    by (simp add: addListener_eq sizes_update add)
       (simp add: channel_listeners_def split: option.splits)
  moreover have dadd: "distinct (set_add l ?old)"
    using d assms(2) by (simp add: set_add_def)
  have "\<forall>c' cl. map_of (listeners (addListener c l E)) c' = Some cl \<longrightarrow> distinct cl"
    using assms(1) dadd
    by (auto simp: addListener_eq AList.update_conv' counted_def split: if_splits)
  ultimately show ?thesis
    using assms(1)
    by (simp add: counted_def channel_sizes_sum_def sizes_def [symmetric])
       (simp add: addListener_eq AList.distinct_update)
qed

lemma counted_removeListener:
  assumes "counted E"
  shows "counted (snd (removeListener c l E))"
proof (cases "map_of (listeners E) c")
  case None
  then show ?thesis using assms by (simp add: removeListener_def)
next
  case (Some cl)
  show ?thesis
  proof (cases "l \<in> set cl")
    case False
    with Some assms show ?thesis by (simp add: removeListener_def)
  next
    case True
    from assms Some have dcl: "distinct cl" and dk: "distinct (map fst (listeners E))"
      by (auto simp: counted_def)
    let ?cl = "removeAll l cl"
    let ?ls1 = "AList.update c ?cl (listeners E)"
    let ?ls2 = "if length ?cl = 0 then AList.delete c ?ls1 else ?ls1"
    have E': "snd (removeListener c l E)
                = E\<lparr>listeners := ?ls2, listenerCount := listenerCount E - 1\<rparr>"
      using Some True by (simp add: removeListener_def set_delete_def Let_def)
    have len: "int (length ?cl) = int (length cl) - 1"
      by (rule length_removeAll_distinct [OF dcl True])
    have s1: "sizes ?ls1 = sizes (listeners E) - 1"
      using Some len by (simp add: sizes_update)
    have d1: "distinct (map fst ?ls1)" using dk by (rule AList.distinct_update)
    have s2: "sizes ?ls2 = sizes (listeners E) - 1"
    proof (cases "length ?cl = 0")
      case True
      have "sizes (AList.delete c ?ls1) = sizes ?ls1 - int (length ?cl)"
        using sizes_delete [OF d1, of c] by (simp add: AList.update_conv')
      with True s1 show ?thesis by simp
    next
      case False
      with s1 show ?thesis by simp
    qed
    have d2: "distinct (map fst ?ls2)"
    proof (cases "length ?cl = 0")
      case True
      have "?ls2 = AList.delete c ?ls1" using True by (rule if_P)
      then show ?thesis using AList.distinct_delete [OF d1, of c] by (simp only:)
    next
      case False
      have "?ls2 = ?ls1" using False by (rule if_not_P)
      then show ?thesis using d1 by (simp only:)
    qed
    have drem: "distinct (removeAll l cl)" using dcl by (rule distinct_removeAll)
    have m2: "\<forall>c' x. map_of ?ls2 c' = Some x \<longrightarrow> distinct x"
      using assms drem
      by (auto simp: counted_def AList.update_conv' AList.delete_conv' split: if_splits)
    show ?thesis
      unfolding E' using assms s2 d2 m2
      by (simp add: counted_def channel_sizes_sum_def sizes_def [symmetric])
  qed
qed

lemma counted_removeAllListeners:
  assumes "counted E"
  shows "counted (removeAllListeners ch E)"
proof -
  have all: "counted (E\<lparr>listeners := [], listenerCount := 0\<rparr>)"
    by (simp add: counted_def channel_sizes_sum_def)
  show ?thesis
  proof (cases ch)
    case None
    with all show ?thesis by (simp add: removeAllListeners_def)
  next
    case (Some c)
    show ?thesis
    proof (cases "c = []")
      case True
      with Some all show ?thesis by (simp add: removeAllListeners_def)
    next
      case False
      show ?thesis
      proof (cases "map_of (listeners E) c")
        case None
        with Some False assms show ?thesis by (simp add: removeAllListeners_def)
      next
        case (Some cl)
        from assms have dk: "distinct (map fst (listeners E))" by (simp add: counted_def)
        have "sizes (AList.delete c (listeners E)) = sizes (listeners E) - int (length cl)"
          using sizes_delete [OF dk, of c] Some by simp
        moreover have "\<forall>c' x. map_of (AList.delete c (listeners E)) c' = Some x \<longrightarrow> distinct x"
          using assms by (auto simp: counted_def AList.delete_conv' split: if_splits)
        ultimately show ?thesis
          using assms Some False \<open>ch = Some c\<close> dk
          by (simp add: removeAllListeners_def counted_def channel_sizes_sum_def
              sizes_def [symmetric] AList.distinct_delete)
      qed
    qed
  qed
qed

lemma counted_calls:
  "\<lbrakk>counted E; fresh_adds cs E\<rbrakk> \<Longrightarrow> counted (emitter_calls cs E)"
proof (induction cs arbitrary: E)
  case Nil
  then show ?case by (simp add: emitter_calls_def)
next
  case (Cons op cs)
  have step: "counted (emitter_call op E) \<and> fresh_adds cs (emitter_call op E)"
  proof (cases op)
    case (AddListener c l)
    with Cons.prems show ?thesis by (simp add: counted_addListener)
  next
    case (RemoveListener c l)
    with Cons.prems show ?thesis by (simp add: counted_removeListener)
  next
    case (RemoveAllListeners c)
    with Cons.prems show ?thesis by (simp add: counted_removeAllListeners)
  qed
  then have "counted (emitter_calls cs (emitter_call op E))" using Cons.IH by blast
  then show ?case by (simp add: emitter_calls_def)
qed

lemma getListenerCount_without_repeats:
  "fresh_adds cs new_SSEEventEmitter \<Longrightarrow>
   getListenerCount None (emitter_calls cs (new_SSEEventEmitter :: 'l SSEEventEmitter))
     = channel_sizes_sum (emitter_calls cs (new_SSEEventEmitter :: 'l SSEEventEmitter))"
  using counted_calls [OF counted_new, of cs]
  by (simp add: counted_def getListenerCount_def)

text \<open>
  C10. Adding the same listener to the same channel twice leaves one listener in the
  channel's set and raises the global count to two: \<open>getListenerCount()\<close> is 2 while the
  sizes of all channels sum to 1.
\<close>

theorem getListenerCount_drifts:
  "getListenerCount None
     (emitter_calls [AddListener ''sse'' (0::nat), AddListener ''sse'' 0] new_SSEEventEmitter) = 2
   \<and> channel_sizes_sum
     (emitter_calls [AddListener ''sse'' (0::nat), AddListener ''sse'' 0] new_SSEEventEmitter) = 1
   \<and> getListenerCount (Some ''sse'')
     (emitter_calls [AddListener ''sse'' (0::nat), AddListener ''sse'' 0] new_SSEEventEmitter) = 1"
  by (simp add: emitter_calls_def addListener_def new_SSEEventEmitter_def set_add_def
      getListenerCount_def channel_sizes_sum_def)

section \<open>The reconnect delay\<close>

text \<open>The part of the delay that does not depend on the random value never decreases
  from one attempt to the next and never exceeds the cap. The delay with jitter is at
  least that part (less the rounding down) and at most a quarter more: a bound that the
  code's double arithmetic meets as well.\<close>

lemma exponentialDelay_mono: "j \<le> k \<Longrightarrow> exponentialDelay j \<le> exponentialDelay k"
proof -
  assume "j \<le> k"
  then have "(2::real) ^ j \<le> 2 ^ k" by (simp add: power_increasing)
  then show ?thesis
    by (simp add: exponentialDelay_def INITIAL_RECONNECT_DELAY_def min_le_iff_disj)
qed

lemma exponentialDelay_cap: "exponentialDelay k \<le> real_of_int MAX_RECONNECT_DELAY"
  by (simp add: exponentialDelay_def)

lemma exponentialDelay_pos: "0 < exponentialDelay k"
  by (simp add: exponentialDelay_def INITIAL_RECONNECT_DELAY_def MAX_RECONNECT_DELAY_def)

lemma attempts_disconnections:
  "reconnectAttempts (disconnections rnd k c) = reconnectAttempts c + k"
  by (induction k) (simp_all add: handleDisconnection_def client_cleanup_def Let_def)

lemma delay_disconnections:
  "reconnectTimer (disconnections rnd (Suc k) new_SSEClient)
     = Some \<lfloor>exponentialDelay (Suc k) + exponentialDelay (Suc k) * rnd (Suc k) * 0.25\<rfloor>"
  using attempts_disconnections [of rnd k new_SSEClient]
  by (simp add: handleDisconnection_def client_cleanup_def Let_def calculateBackoff_def
      new_SSEClient_def)

lemma calculateBackoff_bounds:
  assumes "0 \<le> rnd" "rnd < 1"
  shows "exponentialDelay (reconnectAttempts c) - 1 < real_of_int (calculateBackoff c rnd)
       \<and> real_of_int (calculateBackoff c rnd) \<le> 1.25 * exponentialDelay (reconnectAttempts c)"
proof -
  define d where "d = exponentialDelay (reconnectAttempts c)"
  define x where "x = d + d * rnd * 0.25"
  have d: "0 < d" unfolding d_def by (rule exponentialDelay_pos)
  have "0 \<le> d * rnd" using d assms(1) by simp
  then have lo: "d \<le> x" unfolding x_def by simp
  have "d * rnd < d" using d assms(2) by simp
  then have hi: "x < 1.25 * d" unfolding x_def by simp
  have f1: "real_of_int \<lfloor>x\<rfloor> \<le> x" by (rule of_int_floor_le)
  have f2: "x - 1 < real_of_int \<lfloor>x\<rfloor>" by linarith
  have c: "calculateBackoff c rnd = \<lfloor>x\<rfloor>"
    by (simp add: calculateBackoff_def Let_def x_def d_def)
  have "d - 1 < real_of_int \<lfloor>x\<rfloor>" using lo f2 by linarith
  moreover have "real_of_int \<lfloor>x\<rfloor> \<le> 1.25 * d" using hi f1 by linarith
  ultimately show ?thesis unfolding c d_def by blast
qed

lemma first_delay_at_least: "0 \<le> rnd \<Longrightarrow> 2000 \<le> calculateBackoff (handleDisconnection r0 new_SSEClient) rnd"
proof -
  assume r: "0 \<le> rnd"
  have "reconnectAttempts (handleDisconnection r0 new_SSEClient) = 1"
    by (simp add: handleDisconnection_def client_cleanup_def new_SSEClient_def Let_def)
  then have "calculateBackoff (handleDisconnection r0 new_SSEClient) rnd = \<lfloor>2000 + 2000 * rnd * 0.25\<rfloor>"
    by (simp add: calculateBackoff_def exponentialDelay_def INITIAL_RECONNECT_DELAY_def MAX_RECONNECT_DELAY_def)
  moreover have "(2000::real) \<le> 2000 + 2000 * rnd * 0.25" using r by simp
  then have "2000 \<le> \<lfloor>2000 + 2000 * rnd * 0.25\<rfloor>" by (simp add: le_floor_iff)
  ultimately show ?thesis by simp
qed

text \<open>
  C3. \<open>handleDisconnection\<close> increments the attempt counter before it calls
  \<open>calculateBackoff\<close>, which multiplies the base by two to the power of the counter. With
  the random value 0 the first disconnection schedules the reconnect after 2000 ms, not
  within 1000 to 1250 ms, while \<open>getReconnectDelay\<close> (which uses the counter minus one)
  reports 1 second for the same attempt; the sixth disconnection in a row schedules
  60000 ms, not a delay within 32000 to 40000 ms.
\<close>

theorem first_reconnect_delay:
  "reconnectAttempts (handleDisconnection 0 new_SSEClient) = 1
   \<and> reconnectTimer (handleDisconnection 0 new_SSEClient) = Some 2000
   \<and> getReconnectDelay (handleDisconnection 0 new_SSEClient) = Some 1
   \<and> reconnectAttempts (disconnections (\<lambda>i. 0) 6 new_SSEClient) = 6
   \<and> reconnectTimer (disconnections (\<lambda>i. 0) 6 new_SSEClient) = Some 60000"
proof -
  have six: "(6::nat) = Suc 5" by simp
  have a: "reconnectTimer (disconnections (\<lambda>i. 0) 6 new_SSEClient) = Some 60000"
    unfolding six delay_disconnections
    by (simp add: exponentialDelay_def INITIAL_RECONNECT_DELAY_def MAX_RECONNECT_DELAY_def)
  have b: "reconnectAttempts (disconnections (\<lambda>i. 0) 6 new_SSEClient) = 6"
    by (simp add: attempts_disconnections new_SSEClient_def)
  have c: "reconnectAttempts (handleDisconnection 0 new_SSEClient) = 1
   \<and> reconnectTimer (handleDisconnection 0 new_SSEClient) = Some 2000
   \<and> getReconnectDelay (handleDisconnection 0 new_SSEClient) = Some 1"
    by (simp add: handleDisconnection_def client_cleanup_def new_SSEClient_def Let_def
      calculateBackoff_def exponentialDelay_def getReconnectDelay_def INITIAL_RECONNECT_DELAY_def
      MAX_RECONNECT_DELAY_def)
  show ?thesis using a b c by simp
qed

section \<open>The user map mirrors the connection table\<close>

lemma set_set_add: "set (set_add x s) = insert x (set s)"
  by (auto simp: set_add_def)

lemma set_add_not_Nil: "set_add x s \<noteq> []"
  by (auto simp: set_add_def)

lemma set_set_delete: "set (set_delete x s) = set s - {x}"
  by (auto simp: set_delete_def)

lemma fresh_id:
  assumes "inj (uuid_src e)" "ids_drawn e m"
  shows "map_of (connections m) (uuid_src e (uuid_used e)) = None"
proof (rule ccontr)
  assume "map_of (connections m) (uuid_src e (uuid_used e)) \<noteq> None"
  with assms(2) obtain j where "j < uuid_used e" "uuid_src e (uuid_used e) = uuid_src e j"
    unfolding ids_drawn_def by blast
  with assms(1) show False by (auto dest: injD)
qed

lemma addConnection_eq:
  "snd (addConnection uid rid ctrl (e, m)) =
     (e\<lparr>uuid_used := Suc (uuid_used e), time_used := Suc (time_used e)\<rparr>,
      m\<lparr>connections :=
           AList.update (uuid_src e (uuid_used e))
             \<lparr>connectionId = uuid_src e (uuid_used e), userId = uid,
              connectedAt = time_src e (time_used e), lastActivity = time_src e (time_used e),
              lastHeartbeat = time_src e (time_used e), roomId = rid, controller = Some ctrl\<rparr>
             (connections m),
         userConnections :=
           AList.update uid
             (set_add (uuid_src e (uuid_used e))
                (case map_of (userConnections m) uid of None \<Rightarrow> [] | Some uc \<Rightarrow> uc))
             (userConnections m)\<rparr>)"
  by (simp add: addConnection_def randomUUID_def Date_now_def Let_def split: option.splits)

lemma addConnection_mirrors:
  assumes inj: "inj (uuid_src e)" and dr: "ids_drawn e m" and mi: "mirrors m"
    and run: "snd (addConnection uid rid ctrl (e, m)) = (e', m')"
  shows "mirrors m' \<and> ids_drawn e' m' \<and> uuid_src e' = uuid_src e"
proof -
  let ?cid = "uuid_src e (uuid_used e)"
  have fresh: "map_of (connections m) ?cid = None" by (rule fresh_id [OF inj dr])
  have e': "e' = e\<lparr>uuid_used := Suc (uuid_used e), time_used := Suc (time_used e)\<rparr>"
    using run by (simp add: addConnection_eq)
  have own: "owned m' u = (if u = uid then insert ?cid (owned m uid) else owned m u)" for u
    using run fresh by (auto simp: addConnection_eq owned_def AList.update_conv' split: if_splits)
  have um: "map_of (userConnections m') =
              (map_of (userConnections m))(uid \<mapsto> set_add ?cid
                 (case map_of (userConnections m) uid of None \<Rightarrow> [] | Some uc \<Rightarrow> uc))"
    using run by (auto simp: addConnection_eq AList.update_conv')
  have "mirrors m'"
    unfolding mirrors_def
  proof
    fix u
    show "case map_of (userConnections m') u of None \<Rightarrow> owned m' u = {}
          | Some uc \<Rightarrow> uc \<noteq> [] \<and> set uc = owned m' u"
    proof (cases "u = uid")
      case True
      from mi [unfolded mirrors_def, THEN spec, of uid]
      have "set (case map_of (userConnections m) uid of None \<Rightarrow> [] | Some uc \<Rightarrow> uc) = owned m uid"
        by (auto split: option.splits)
      then show ?thesis using True by (simp add: um own set_set_add set_add_not_Nil)
    next
      case False
      with mi [unfolded mirrors_def, THEN spec, of u] show ?thesis
        by (auto simp: um own split: option.splits)
    qed
  qed
  moreover have "ids_drawn e' m'"
    unfolding ids_drawn_def
  proof (intro allI impI)
    fix cid assume "map_of (connections m') cid \<noteq> None"
    then have "cid = ?cid \<or> map_of (connections m) cid \<noteq> None"
      using run by (auto simp: addConnection_eq AList.update_conv' split: if_splits)
    then show "\<exists>j<uuid_used e'. cid = uuid_src e' j"
    proof
      assume "cid = ?cid"
      then show ?thesis by (auto simp: e')
    next
      assume "map_of (connections m) cid \<noteq> None"
      with dr obtain j where "j < uuid_used e" "cid = uuid_src e j"
        unfolding ids_drawn_def by blast
      then show ?thesis by (auto simp: e' intro: exI [of _ j])
    qed
  qed
  ultimately show ?thesis by (simp add: e')
qed

lemma removeConnection_mirrors:
  assumes mi: "mirrors m"
  shows "mirrors (snd (removeConnection cid m))"
proof (cases "map_of (connections m) cid")
  case None
  then show ?thesis using mi by (simp add: removeConnection_def)
next
  case (Some c)
  let ?m' = "snd (removeConnection cid m)"
  let ?uid = "userId c"
  have "cid \<in> owned m ?uid" using Some by (simp add: owned_def)
  with mi [unfolded mirrors_def, THEN spec, of ?uid]
  obtain uc where uc: "map_of (userConnections m) ?uid = Some uc" "set uc = owned m ?uid"
    by (auto split: option.splits)
  have cm: "map_of (connections ?m') = (map_of (connections m))(cid := None)"
    using Some by (simp add: removeConnection_def Let_def AList.delete_conv' split: option.splits)
  have own: "owned ?m' u = owned m u - {cid}" for u
    by (auto simp: owned_def cm)
  have um: "map_of (userConnections ?m') =
              (if set_delete cid uc = [] then (map_of (userConnections m))(?uid := None)
               else (map_of (userConnections m))(?uid \<mapsto> set_delete cid uc))"
    using Some uc(1)
    by (simp add: removeConnection_def Let_def AList.delete_conv' AList.update_conv')
  show ?thesis
    unfolding mirrors_def
  proof
    fix u
    show "case map_of (userConnections ?m') u of None \<Rightarrow> owned ?m' u = {}
          | Some uc \<Rightarrow> uc \<noteq> [] \<and> set uc = owned ?m' u"
    proof (cases "u = ?uid")
      case True
      have "set (set_delete cid uc) = owned ?m' ?uid"
        by (simp add: set_set_delete uc(2) own)
      then show ?thesis using True
        by (cases "set_delete cid uc = []") (auto simp: um)
    next
      case False
      have "cid \<notin> owned m u" using Some False by (auto simp: owned_def)
      then have "owned ?m' u = owned m u" by (simp add: own)
      with mi [unfolded mirrors_def, THEN spec, of u] False show ?thesis
        by (auto simp: um split: option.splits)
    qed
  qed
qed

lemma removeConnection_dom:
  "map_of (connections (snd (removeConnection cid m))) x \<noteq> None \<Longrightarrow> map_of (connections m) x \<noteq> None"
  by (auto simp: removeConnection_def Let_def AList.delete_conv' split: option.splits if_splits)

lemma removeConnection_drawn:
  "ids_drawn e m \<Longrightarrow> ids_drawn e (snd (removeConnection cid m))"
  unfolding ids_drawn_def using removeConnection_dom by blast

lemma acknowledgeHeartbeat_mirrors:
  assumes "mirrors m" "ids_drawn e m" "snd (acknowledgeHeartbeat cid (e, m)) = (e', m')"
  shows "mirrors m' \<and> ids_drawn e' m' \<and> uuid_src e' = uuid_src e"
proof (cases "map_of (connections m) cid")
  case None
  with assms show ?thesis by (simp add: acknowledgeHeartbeat_def)
next
  case (Some c)
  have m': "m' = m\<lparr>connections := AList.update cid (c\<lparr>lastHeartbeat := time_src e (time_used e),
                       lastActivity := time_src e (Suc (time_used e))\<rparr>) (connections m)\<rparr>"
    and e': "e' = e\<lparr>time_used := Suc (Suc (time_used e))\<rparr>"
    using assms(3) Some by (auto simp: acknowledgeHeartbeat_def Date_now_def Let_def)
  have own: "owned m' u = owned m u" for u
    using Some by (auto simp: owned_def m' AList.update_conv')
  have ucs: "userConnections m' = userConnections m" by (simp add: m')
  have ownf: "owned m' = owned m" by (rule ext) (rule own)
  have "mirrors m'" using assms(1) unfolding mirrors_def ucs ownf .
  moreover have "ids_drawn e' m'"
    using assms(2) Some by (auto simp: ids_drawn_def m' e' AList.update_conv' split: if_splits)
  ultimately show ?thesis by (simp add: e')
qed

lemma remove_all_mirrors:
  "mirrors m \<Longrightarrow> ids_drawn e m \<Longrightarrow>
   mirrors (foldl (\<lambda>m cid. snd (removeConnection cid m)) m cids)
   \<and> ids_drawn e (foldl (\<lambda>m cid. snd (removeConnection cid m)) m cids)"
  by (induction cids arbitrary: m) (simp_all add: removeConnection_mirrors removeConnection_drawn)

lemma cleanupStaleConnections_mirrors:
  assumes "mirrors m" "ids_drawn e m" "cleanupStaleConnections (e, m) = (e', m')"
  shows "mirrors m' \<and> ids_drawn e' m' \<and> uuid_src e' = uuid_src e"
proof -
  let ?stale = "map fst (filter (\<lambda>(cid, c). time_src e (time_used e) - lastHeartbeat c > HEARTBEAT_TIMEOUT) (connections m))"
  have m': "m' = foldl (\<lambda>m cid. snd (removeConnection cid m)) m ?stale"
    and e': "e' = e\<lparr>time_used := Suc (time_used e)\<rparr>"
    using assms(3) by (auto simp: cleanupStaleConnections_def Date_now_def Let_def)
  from remove_all_mirrors [OF assms(1,2), of ?stale]
  have "mirrors m'" "ids_drawn e m'" by (simp_all add: m')
  then show ?thesis by (simp add: e' ids_drawn_def)
qed

lemma manager_call_mirrors:
  assumes "inj (uuid_src e)" "ids_drawn e m" "mirrors m" "manager_call c (e, m) = (e', m')"
  shows "mirrors m' \<and> ids_drawn e' m' \<and> uuid_src e' = uuid_src e"
proof (cases c)
  case (AddConnection uid rid ctrl)
  with assms show ?thesis using addConnection_mirrors [of e m uid rid ctrl e' m'] by simp
next
  case (RemoveConnection cid)
  with assms show ?thesis
    using removeConnection_mirrors [of m cid] removeConnection_drawn [of e m cid] by auto
next
  case (AcknowledgeHeartbeat cid)
  with assms show ?thesis using acknowledgeHeartbeat_mirrors [of m e cid e' m'] by simp
next
  case CleanupStaleConnections
  with assms show ?thesis using cleanupStaleConnections_mirrors [of m e e' m'] by simp
qed

lemma manager_calls_mirrors:
  "\<lbrakk>inj (uuid_src e); ids_drawn e m; mirrors m; manager_calls cs (e, m) = (e', m')\<rbrakk> \<Longrightarrow>
   mirrors m' \<and> ids_drawn e' m' \<and> uuid_src e' = uuid_src e"
proof (induction cs arbitrary: e m)
  case Nil
  then show ?case by (simp add: manager_calls_def)
next
  case (Cons c cs)
  obtain e1 m1 where step: "manager_call c (e, m) = (e1, m1)" by (cases "manager_call c (e, m)")
  from manager_call_mirrors [OF Cons.prems(1,2,3) step]
  have h: "mirrors m1" "ids_drawn e1 m1" "uuid_src e1 = uuid_src e" by simp_all
  have "manager_calls cs (e1, m1) = (e', m')"
    using Cons.prems(4) step by (simp add: manager_calls_def)
  from Cons.IH [OF _ h(2) h(1) this] Cons.prems(1) h(3) show ?case by simp
qed

lemma mirrors_keys:
  assumes "mirrors m"
  shows "dom (map_of (userConnections m)) = userId ` ran (map_of (connections m))"
    and "\<forall>uc\<in>ran (map_of (userConnections m)). uc \<noteq> []"
proof -
  have a: "(map_of (userConnections m) u \<noteq> None) = (owned m u \<noteq> {})" for u
    using assms [unfolded mirrors_def, THEN spec, of u] by (auto split: option.splits)
  have b: "(owned m u \<noteq> {}) = (u \<in> userId ` ran (map_of (connections m)))" for u
    by (auto simp: owned_def ran_def)
  show "dom (map_of (userConnections m)) = userId ` ran (map_of (connections m))"
    using a b by (auto simp: dom_def)
  show "\<forall>uc\<in>ran (map_of (userConnections m)). uc \<noteq> []"
  proof
    fix uc assume "uc \<in> ran (map_of (userConnections m))"
    then obtain u where "map_of (userConnections m) u = Some uc" by (auto simp: ran_def)
    with assms [unfolded mirrors_def, THEN spec, of u] show "uc \<noteq> []" by simp
  qed
qed

text \<open>
  C4. Ids drawn from \<open>crypto.randomUUID\<close> are pairwise different. Then after every
  sequence of \<open>addConnection\<close>, \<open>removeConnection\<close>, \<open>acknowledgeHeartbeat\<close> and stale
  sweeps on a new registry, the keys of the user map are exactly the user ids of the
  entries of the connection table, and every set in the user map is non-empty. The
  sequence is arbitrary, so this holds after each of its calls.
\<close>

theorem registry_mirrors_connections:
  assumes "inj (uuid_src e)" and "manager_calls calls (e, new_SSEManager) = (e', m')"
  shows "dom (map_of (userConnections m')) = userId ` ran (map_of (connections m'))
       \<and> (\<forall>uc\<in>ran (map_of (userConnections m')). uc \<noteq> [])"
proof -
  have "mirrors new_SSEManager" by (simp add: mirrors_def new_SSEManager_def owned_def)
  moreover have "ids_drawn e new_SSEManager" by (simp add: ids_drawn_def new_SSEManager_def)
  ultimately have "mirrors m'"
    using manager_calls_mirrors [OF assms(1) _ _ assms(2)] by simp
  then show ?thesis using mirrors_keys by blast
qed

lemma inj_ex_env: "inj (uuid_src ex_env)"
proof (rule injI)
  fix x y assume "uuid_src ex_env x = uuid_src ex_env y"
  then have "length (replicate (Suc x) CHR ''u'') = length (replicate (Suc y) CHR ''u'')"
    by (simp add: ex_env_def)
  then show "x = y" by simp
qed

theorem registry_mirrors_connections_witness:
  "manager_calls ex_calls (ex_env, new_SSEManager)
     = (ex_env\<lparr>uuid_used := 3, time_used := 5\<rparr>, ex_manager_after)
   \<and> dom (map_of (userConnections ex_manager_after))
       = userId ` ran (map_of (connections ex_manager_after))
   \<and> dom (map_of (userConnections ex_manager_after)) = {''alice''}"
proof -
  have run: "manager_calls ex_calls (ex_env, new_SSEManager)
               = (ex_env\<lparr>uuid_used := 3, time_used := 5\<rparr>, ex_manager_after)"
    by (simp add: manager_calls_def ex_calls_def ex_env_def new_SSEManager_def addConnection_def
        removeConnection_def acknowledgeHeartbeat_def randomUUID_def Date_now_def set_add_def
        set_delete_def ex_manager_after_def Let_def)
  have keys: "dom (map_of (userConnections ex_manager_after)) = {''alice''}"
    by (simp add: ex_manager_after_def)
  show ?thesis
    using registry_mirrors_connections [OF inj_ex_env run] run keys by simp
qed

section \<open>The ids in the catch-up buffer\<close>

text \<open>Every step of the server keeps the ids of the buffer among the ids drawn so far,
  and never files an id drawn for something else.\<close>

lemma set_js_slice: "set (js_slice k xs) \<subseteq> set xs"
  by (simp add: js_slice_def Let_def set_drop_subset)

lemma set_trim: "set (trim m xs) \<subseteq> set xs"
  by (simp add: trim_def set_js_slice)

lemma trim_last:
  assumes "0 \<le> m" "xs \<noteq> []"
  shows "trim m xs \<noteq> [] \<and> last (trim m xs) = last xs"
proof (cases "m = 0")
  case True
  then show ?thesis using assms(2) by (simp add: trim_def js_slice_def)
next
  case False
  with assms(1) have m: "0 < m" by simp
  have "length xs - nat m < length xs" using m assms(2) by simp
  then show ?thesis by (simp add: trim_pos [OF m])
qed

lemma world_enqueue_eq:
  "world_enqueue rid event data w =
     w\<lparr>sw_env := env_after_enqueue (sw_env w),
       sw_mq := (sw_mq w)\<lparr>queues :=
         AList.update rid
           (trim (maxSize (sw_mq w))
              (room_log (sw_mq w) rid @ [new_message rid event data (sw_env w)]))
           (queues (sw_mq w))\<rparr>\<rparr>"
  by (simp add: world_enqueue_def enqueue_eq)

lemma room_log_world_enqueue:
  "room_log (sw_mq (world_enqueue rid event data w)) r =
     (if r = rid
      then trim (maxSize (sw_mq w)) (room_log (sw_mq w) rid @ [new_message rid event data (sw_env w)])
      else room_log (sw_mq w) r)"
  by (simp add: world_enqueue_eq room_log_def AList.update_conv')

lemma world_enqueue_frame:
  "uuid_src (sw_env (world_enqueue rid event data w)) = uuid_src (sw_env w)"
  "uuid_used (sw_env (world_enqueue rid event data w)) = Suc (uuid_used (sw_env w))"
  "maxSize (sw_mq (world_enqueue rid event data w)) = maxSize (sw_mq w)"
  "sw_streams (world_enqueue rid event data w) = sw_streams w"
  by (simp_all add: world_enqueue_eq env_after_enqueue_def)

lemma all_messages_update:
  "all_messages (AList.update k v al) \<subseteq> set v \<union> all_messages al"
  by (induction al) (auto simp: all_messages_def)

lemma all_messages_delete: "all_messages (AList.delete k al) \<subseteq> all_messages al"
  by (auto simp: all_messages_def AList.delete_eq)

lemma room_log_all_messages: "set (room_log q r) \<subseteq> all_messages (queues q)"
proof (cases "map_of (queues q) r")
  case None
  then show ?thesis by (simp add: room_log_def)
next
  case (Some queue)
  then have "(r, queue) \<in> set (queues q)" by (rule map_of_SomeD)
  then have "set queue \<subseteq> all_messages (queues q)" by (auto simp: all_messages_def)
  with Some show ?thesis by (simp add: room_log_def)
qed

lemma ids_world_enqueue:
  "ids_in_queue (sw_mq (world_enqueue rid event data w))
     \<subseteq> insert (uuid_src (sw_env w) (uuid_used (sw_env w))) (ids_in_queue (sw_mq w))"
proof -
  let ?new = "new_message rid event data (sw_env w)"
  have "all_messages (queues (sw_mq (world_enqueue rid event data w)))
          \<subseteq> set (trim (maxSize (sw_mq w)) (room_log (sw_mq w) rid @ [?new]))
             \<union> all_messages (queues (sw_mq w))"
    by (simp add: world_enqueue_eq all_messages_update)
  also have "\<dots> \<subseteq> insert ?new (all_messages (queues (sw_mq w)))"
    using set_trim [of "maxSize (sw_mq w)" "room_log (sw_mq w) rid @ [?new]"]
      room_log_all_messages [of "sw_mq w" rid] by auto
  finally show ?thesis
    by (auto simp: ids_in_queue_def new_message_def)
qed

lemma drawn_ids_mono:
  "\<lbrakk>uuid_src e' = uuid_src e; uuid_used e \<le> uuid_used e'\<rbrakk> \<Longrightarrow> drawn_ids K e \<subseteq> drawn_ids K e'"
  by (auto simp: drawn_ids_def)

lemma log_ids_drawn_draw:
  "log_ids_drawn K w \<Longrightarrow> log_ids_drawn K (w\<lparr>sw_env := snd (randomUUID (sw_env w))\<rparr>)"
  by (auto simp: log_ids_drawn_def randomUUID_def drawn_ids_def)

lemma log_ids_drawn_world_enqueue:
  assumes "log_ids_drawn K w"
  shows "log_ids_drawn K (world_enqueue rid event data w)"
proof -
  let ?w' = "world_enqueue rid event data w"
  let ?n = "uuid_used (sw_env w)"
  from assms have K: "K \<subseteq> {..<?n}" and ids: "ids_in_queue (sw_mq w) \<subseteq> drawn_ids K (sw_env w)"
    by (simp_all add: log_ids_drawn_def)
  have "?n \<notin> K" using K by auto
  then have new: "uuid_src (sw_env w) ?n \<in> drawn_ids K (sw_env ?w')"
    by (auto simp: drawn_ids_def world_enqueue_frame)
  have "drawn_ids K (sw_env w) \<subseteq> drawn_ids K (sw_env ?w')"
    by (rule drawn_ids_mono) (simp_all add: world_enqueue_frame)
  with ids new ids_world_enqueue [of rid event data w]
  have "ids_in_queue (sw_mq ?w') \<subseteq> drawn_ids K (sw_env ?w')" by blast
  moreover have "K \<subseteq> {..<uuid_used (sw_env ?w')}" using K by (auto simp: world_enqueue_frame)
  ultimately show ?thesis by (simp add: log_ids_drawn_def)
qed

lemma cleanup_rooms_subset:
  "all_messages (snd (cleanup_rooms now t rest qs)) \<subseteq> all_messages rest \<union> all_messages qs"
proof (induction rest arbitrary: qs)
  case Nil
  then show ?case by simp
next
  case (Cons p rest)
  obtain room q0 where p: "p = (room, q0)" by (cases p)
  let ?f = "filter (\<lambda>m. now - msg_timestamp m < t) q0"
  let ?qs' = "if length ?f \<noteq> length q0
              then (if length ?f = 0 then AList.delete room qs else AList.update room ?f qs)
              else qs"
  have step: "snd (cleanup_rooms now t (p # rest) qs) = snd (cleanup_rooms now t rest ?qs')"
    by (simp add: p Let_def split: prod.splits)
  have "all_messages ?qs' \<subseteq> set q0 \<union> all_messages qs"
    using all_messages_update [of room ?f qs] all_messages_delete [of room qs] by auto
  moreover have "all_messages (p # rest) = set q0 \<union> all_messages rest"
    by (simp add: all_messages_def p)
  ultimately show ?case
    unfolding step using Cons.IH [of ?qs'] by blast
qed

lemma log_ids_drawn_cleanup:
  assumes "log_ids_drawn K w" "cleanup (sw_env w, sw_mq w) = (n, e', q')"
  shows "log_ids_drawn K (w\<lparr>sw_env := e', sw_mq := q'\<rparr>)"
proof -
  have e': "e' = snd (Date_now (sw_env w))"
    and q': "queues q' = snd (cleanup_rooms (fst (Date_now (sw_env w))) (ttl (sw_mq w))
                                (queues (sw_mq w)) (queues (sw_mq w)))"
    using assms(2) by (auto simp: cleanup_def Let_def split: prod.splits)
  have "all_messages (queues q') \<subseteq> all_messages (queues (sw_mq w))"
    unfolding q' using cleanup_rooms_subset by blast
  then have "ids_in_queue q' \<subseteq> ids_in_queue (sw_mq w)"
    by (auto simp: ids_in_queue_def)
  then show ?thesis
    using assms(1) by (auto simp: log_ids_drawn_def e' Date_now_def drawn_ids_def)
qed

lemma log_ids_drawn_clear:
  "log_ids_drawn K w \<Longrightarrow> log_ids_drawn K (w\<lparr>sw_mq := clear (sw_mq w)\<rparr>)"
  by (simp add: log_ids_drawn_def clear_def ids_in_queue_def all_messages_def)

lemma log_ids_drawn_streams:
  "log_ids_drawn K w \<Longrightarrow> log_ids_drawn K (w\<lparr>sw_streams := st\<rparr>)"
  by (simp add: log_ids_drawn_def)

lemma onSSE_returns: "\<exists>w'. onSSE l ev w = Returned w'"
  by (cases l) (auto simp: Let_def controller_enqueue_def split: prod.splits)

lemma onSSE_log_ids_drawn:
  assumes "log_ids_drawn K w" "onSSE l ev w = Returned w'"
  shows "log_ids_drawn K w'"
proof -
  obtain c rid where l: "l = OnSSE c rid" by (cases l)
  let ?w1 = "w\<lparr>sw_env := snd (randomUUID (sw_env w))\<rparr>"
  have w1: "log_ids_drawn K ?w1" by (rule log_ids_drawn_draw [OF assms(1)])
  show ?thesis
  proof (cases "stream_closed (sw_streams w c)")
    case True
    with assms(2) have "w' = ?w1"
      by (auto simp: l Let_def controller_enqueue_def split: prod.splits)
    with w1 show ?thesis by simp
  next
    case False
    let ?w2 = "?w1\<lparr>sw_streams := (sw_streams w)(c := (sw_streams w c)
      \<lparr>stream_chunks := stream_chunks (sw_streams w c)
          @ [formatSSEEvent ev (fst (randomUUID (sw_env w)))]\<rparr>)\<rparr>"
    have w2: "log_ids_drawn K ?w2" by (rule log_ids_drawn_streams [OF w1])
    from False assms(2) have
      "w' = (if ev_type ev \<noteq> heartbeat
             then world_enqueue rid (type_name (ev_type ev)) (ev_data ev) ?w2 else ?w2)"
      by (auto simp: l Let_def controller_enqueue_def split: prod.splits)
    then show ?thesis
      using w2 log_ids_drawn_world_enqueue [OF w2] by simp
  qed
qed

lemma emit_loop_world:
  assumes step: "\<And>l w w'. \<lbrakk>P w; call l ev w = Returned w' \<or> call l ev w = Threw w'\<rbrakk> \<Longrightarrow> P w'"
  shows "\<lbrakk>P w; emit_loop call ev ls (E, w, called) = (E', w', called')\<rbrakk> \<Longrightarrow> P w'"
proof (induction ls arbitrary: E w called)
  case Nil
  then show ?case by simp
next
  case (Cons l ls)
  show ?case
  proof (cases "call l ev w")
    case (Returned w1)
    then have "P w1" using step Cons.prems(1) by blast
    moreover from Returned Cons.prems(2) have
      "emit_loop call ev ls (E, w1, called @ [l]) = (E', w', called')" by simp
    ultimately show ?thesis by (rule Cons.IH)
  next
    case (Threw w1)
    then have "P w1" using step Cons.prems(1) by blast
    moreover from Threw Cons.prems(2) have
      "emit_loop call ev ls (snd (removeListener ''sse'' l E), w1, called @ [l]) = (E', w', called')"
      by simp
    ultimately show ?thesis by (rule Cons.IH)
  qed
qed

lemma emit_world:
  assumes step: "\<And>l w w'. \<lbrakk>P w; call l \<lparr>ev_type = ty, ev_data = d, ev_id = i\<rparr> w = Returned w'
                    \<or> call l \<lparr>ev_type = ty, ev_data = d, ev_id = i\<rparr> w = Threw w'\<rbrakk> \<Longrightarrow> P w'"
    and "P w" and "emit call ty d i (E, w) = Returned (E', w', called)"
  shows "P w'"
proof -
  from emit_cases [of call ty d i E w] assms(3) have run:
    "emit_loop call \<lparr>ev_type = ty, ev_data = d, ev_id = i\<rparr> (channel_listeners E ''sse'') (E, w, [])
       = (E', w', called)" by auto
  show ?thesis
  proof (rule emit_loop_world [where P = P and call = call, OF _ assms(2) run])
    fix l w w'
    assume "P w" "call l \<lparr>ev_type = ty, ev_data = d, ev_id = i\<rparr> w = Returned w'
                    \<or> call l \<lparr>ev_type = ty, ev_data = d, ev_id = i\<rparr> w = Threw w'"
    then show "P w'" by (rule step)
  qed
qed

lemma onSSE_uuid_src:
  "onSSE l ev w = Returned w' \<Longrightarrow> uuid_src (sw_env w') = uuid_src (sw_env w)"
  by (cases l)
     (auto simp: Let_def controller_enqueue_def randomUUID_def world_enqueue_frame
           split: prod.splits if_splits)

lemma onSSE_drawn_from:
  assumes "drawn_from U K w" "onSSE l ev w = Returned w' \<or> onSSE l ev w = Threw w'"
  shows "drawn_from U K w'"
proof -
  from onSSE_returns [of l ev w] assms(2) have r: "onSSE l ev w = Returned w'" by auto
  show ?thesis
    using assms(1) onSSE_log_ids_drawn [OF _ r] onSSE_uuid_src [OF r]
    by (simp add: drawn_from_def)
qed

lemma emit_drawn_from:
  assumes "drawn_from U K w"
  shows "drawn_from U K (fst (snd (finished (emit onSSE ty d i (E, w)))))"
proof -
  from emit_cases [of onSSE ty d i E w] obtain E' w' called where
    e: "emit onSSE ty d i (E, w) = Returned (E', w', called)" by blast
  have "drawn_from U K w'"
    by (rule emit_world [where P = "drawn_from U K", OF _ assms e]) (rule onSSE_drawn_from)
  with e show ?thesis by simp
qed

lemma world_enqueue_drawn_from:
  "drawn_from U K w \<Longrightarrow> drawn_from U K (world_enqueue rid event data w)"
  by (simp add: drawn_from_def log_ids_drawn_world_enqueue world_enqueue_frame)

lemma draw_drawn_from:
  "drawn_from U K w \<Longrightarrow> drawn_from U K (w\<lparr>sw_env := snd (randomUUID (sw_env w))\<rparr>)"
  by (simp add: drawn_from_def log_ids_drawn_draw) (simp add: randomUUID_def)

lemma broadcast_drawn_from:
  assumes "drawn_from U K w"
  shows "drawn_from U K (fst (snd (finished (broadcast ty d rid (E, w)))))"
proof -
  let ?w1 = "w\<lparr>sw_env := snd (randomUUID (sw_env w))\<rparr>"
  let ?w2 = "case rid of None \<Rightarrow> ?w1
             | Some r \<Rightarrow> if r \<noteq> [] then world_enqueue r (type_name ty) d ?w1 else ?w1"
  have b: "broadcast ty d rid (E, w) = emit onSSE ty d (Some (fst (randomUUID (sw_env w)))) (E, ?w2)"
    by (simp add: broadcast_def Let_def case_prod_beta)
  have "drawn_from U K ?w1" by (rule draw_drawn_from [OF assms])
  then have "drawn_from U K ?w2"
    by (auto simp: world_enqueue_drawn_from split: option.splits)
  then show ?thesis unfolding b by (rule emit_drawn_from)
qed

lemma server_step_drawn_from:
  assumes "drawn_from U K (snd s)"
  shows "drawn_from U K (snd (server_step op s))"
proof -
  obtain E w where s: "s = (E, w)" by (cases s)
  from assms have w: "drawn_from U K w" by (simp add: s)
  show ?thesis
  proof (cases op)
    case (Broadcast ty d rid)
    then show ?thesis using broadcast_drawn_from [OF w, of ty d rid E]
      by (simp add: s case_prod_beta)
  next
    case (Emit ty d i)
    then show ?thesis using emit_drawn_from [OF w, of ty d i E]
      by (simp add: s case_prod_beta)
  next
    case (Enqueue rid ev d)
    then show ?thesis using world_enqueue_drawn_from [OF w] by (simp add: s)
  next
    case Cleanup
    obtain n e' q' where c: "cleanup (sw_env w, sw_mq w) = (n, e', q')" by (metis prod_cases3)
    then have "uuid_src e' = uuid_src (sw_env w)"
      by (auto simp: cleanup_def Let_def Date_now_def split: prod.splits)
    with w log_ids_drawn_cleanup [OF _ c, of K] Cleanup c show ?thesis
      by (simp add: s drawn_from_def)
  next
    case Clear
    then show ?thesis using w log_ids_drawn_clear [of K w] by (simp add: s drawn_from_def)
  next
    case (Subscribe l)
    then show ?thesis using w by (simp add: s)
  next
    case (Unsubscribe l)
    then show ?thesis using w by (simp add: s)
  next
    case (CloseStream c)
    then show ?thesis using w log_ids_drawn_streams [of K w] by (simp add: s drawn_from_def)
  next
    case (Deliver l ev)
    from onSSE_returns [of l ev w] obtain w' where r: "onSSE l ev w = Returned w'" by blast
    then have "drawn_from U K w'" using onSSE_drawn_from [OF w] by blast
    with Deliver r show ?thesis by (simp add: s)
  next
    case DrawId
    then show ?thesis using draw_drawn_from [OF w] by (simp add: s)
  next
    case ReadClock
    then show ?thesis
      using w by (auto simp: s drawn_from_def log_ids_drawn_def drawn_ids_def Date_now_def)
  qed
qed

lemma server_steps_drawn_from:
  "drawn_from U K (snd s) \<Longrightarrow> drawn_from U K (snd (server_steps ops s))"
proof (induction ops arbitrary: s)
  case Nil
  then show ?case by (simp add: server_steps_def)
next
  case (Cons op ops)
  have "drawn_from U K (snd (server_step op s))"
    by (rule server_step_drawn_from [OF Cons.prems])
  from Cons.IH [OF this] show ?case by (simp add: server_steps_def)
qed

lemma absent_fallback:
  assumes "i \<notin> ids_in_queue q"
  shows "getMessagesSince q room i = js_slice (- 50) (room_log q room)"
proof (cases "map_of (queues q) room")
  case None
  then show ?thesis by (simp add: getMessagesSince_def room_log_def js_slice_def)
next
  case (Some queue)
  have "set queue \<subseteq> all_messages (queues q)"
    using room_log_all_messages [of q room] Some by (simp add: room_log_def)
  with assms have "\<forall>m\<in>set queue. msg_id m \<noteq> i" by (auto simp: ids_in_queue_def)
  then have "findIndex (\<lambda>m. msg_id m = i) queue = - 1" by (simp add: findIndex_none)
  with Some show ?thesis
    by (cases "queue = []") (simp_all add: getMessagesSince_def room_log_def js_slice_def)
qed

lemma excluded_id_absent:
  assumes "inj U" "drawn_from U K w" "k \<in> K"
  shows "U k \<notin> ids_in_queue (sw_mq w)"
proof
  assume "U k \<in> ids_in_queue (sw_mq w)"
  with assms(2) have "U k \<in> U ` ({..<uuid_used (sw_env w)} - K)"
    by (auto simp: drawn_from_def log_ids_drawn_def drawn_ids_def)
  then obtain j where "j \<notin> K" "U k = U j" by auto
  with assms(1,3) show False by (auto dest: injD)
qed

lemma ex_world_inj: "inj (uuid_src (sw_env ex_world))"
  using inj_ex_env by (simp add: ex_world_def ex_env_def)

lemma ex_world_drawn: "log_ids_drawn {} ex_world"
  by (simp add: log_ids_drawn_def ids_in_queue_def all_messages_def drawn_ids_def ex_world_def
      ex_queue_def ex_message_def ex_env_def)

section \<open>Frame ids and log ids\<close>

text \<open>The frame that \<open>formatSSEEvent\<close> builds, character by character: the id line
  comes first and carries the id passed in.\<close>

lemma formatSSEEvent_frame:
  "formatSSEEvent event i =
     ''id: '' @ i @ CHR 0x0A #
     ''event: '' @ type_name (ev_type event) @ CHR 0x0A #
     ''data: '' @ ev_data event @ CHR 0x0A #
     ''retry: 3000'' @ [CHR 0x0A, CHR 0x0A]"
  by (simp add: formatSSEEvent_def join_lines_def RETRY_INTERVAL_def)

text \<open>
  C2. Ids drawn from \<open>crypto.randomUUID\<close> are pairwise different, and the buffer holds
  only ids drawn so far. The endpoint's listener receives an event other than a
  heartbeat and its stream is open. Then the frame it writes onto the stream is the
  text \<open>id: \<close> followed by the id drawn first, then the event, data and retry lines;
  the entry it enqueues (the last of the room's log) carries the id drawn next, and the
  two ids differ. Whatever the server does afterwards, the frame's id is the id of no entry
  of the buffer, and \<open>getMessagesSince\<close> with that id returns, for every room, the last
  50 entries of the room's log: the result of its branch for an unknown id.
\<close>

theorem live_frame_id_not_in_log:
  assumes inj: "inj (uuid_src (sw_env w))"
    and drawn: "log_ids_drawn {} w"
    and size: "0 \<le> maxSize (sw_mq w)"
    and "open": "\<not> stream_closed (sw_streams w c)"
    and live: "ev_type event \<noteq> heartbeat"
  shows "\<exists>w' frame_id log_id.
           frame_id = uuid_src (sw_env w) (uuid_used (sw_env w))
         \<and> log_id = uuid_src (sw_env w) (Suc (uuid_used (sw_env w)))
         \<and> onSSE (OnSSE c rid) event w = Returned w'
         \<and> stream_chunks (sw_streams w' c)
             = stream_chunks (sw_streams w c)
               @ [''id: '' @ frame_id @ CHR 0x0A #
                  ''event: '' @ type_name (ev_type event) @ CHR 0x0A #
                  ''data: '' @ ev_data event @ CHR 0x0A #
                  ''retry: 3000'' @ [CHR 0x0A, CHR 0x0A]]
         \<and> room_log (sw_mq w') rid \<noteq> []
         \<and> entry_of (last (room_log (sw_mq w') rid))
             = (log_id, type_name (ev_type event), ev_data event)
         \<and> frame_id \<noteq> log_id
         \<and> (\<forall>ops E room.
               frame_id \<notin> ids_in_queue (sw_mq (snd (server_steps ops (E, w'))))
             \<and> getMessagesSince (sw_mq (snd (server_steps ops (E, w')))) room frame_id
                 = js_slice (- 50) (room_log (sw_mq (snd (server_steps ops (E, w')))) room))"
proof -
  let ?U = "uuid_src (sw_env w)"
  let ?n = "uuid_used (sw_env w)"
  let ?w1 = "w\<lparr>sw_env := snd (randomUUID (sw_env w))\<rparr>"
  let ?w2 = "?w1\<lparr>sw_streams := (sw_streams w)(c := (sw_streams w c)
      \<lparr>stream_chunks := stream_chunks (sw_streams w c) @ [formatSSEEvent event (?U ?n)]\<rparr>)\<rparr>"
  let ?w' = "world_enqueue rid (type_name (ev_type event)) (ev_data event) ?w2"
  have run: "onSSE (OnSSE c rid) event w = Returned ?w'"
    using "open" live by (simp add: Let_def controller_enqueue_def randomUUID_def)
  have chunks: "stream_chunks (sw_streams ?w' c)
                  = stream_chunks (sw_streams w c)
                    @ [''id: '' @ ?U ?n @ CHR 0x0A #
                       ''event: '' @ type_name (ev_type event) @ CHR 0x0A #
                       ''data: '' @ ev_data event @ CHR 0x0A #
                       ''retry: 3000'' @ [CHR 0x0A, CHR 0x0A]]"
    by (simp add: world_enqueue_frame formatSSEEvent_frame)
  let ?new = "new_message rid (type_name (ev_type event)) (ev_data event) (sw_env ?w2)"
  have log: "room_log (sw_mq ?w') rid = trim (maxSize (sw_mq w)) (room_log (sw_mq w) rid @ [?new])"
    by (simp add: room_log_world_enqueue)
  from trim_last [OF size, of "room_log (sw_mq w) rid @ [?new]"]
  have last: "room_log (sw_mq ?w') rid \<noteq> []" "last (room_log (sw_mq ?w') rid) = ?new"
    by (simp_all add: log)
  have entry: "entry_of (last (room_log (sw_mq ?w') rid))
                 = (?U (Suc ?n), type_name (ev_type event), ev_data event)"
    by (simp only: last(2)) (simp add: entry_of_def new_message_def randomUUID_def)
  have neq: "?U ?n \<noteq> ?U (Suc ?n)"
    using inj by (auto dest: injD)
  have "drawn_from ?U {?n} ?w1"
    using drawn by (auto simp: drawn_from_def log_ids_drawn_def drawn_ids_def randomUUID_def)
  then have "drawn_from ?U {?n} ?w2"
    by (simp add: drawn_from_def log_ids_drawn_def)
  then have w': "drawn_from ?U {?n} ?w'" by (rule world_enqueue_drawn_from)
  have later: "?U ?n \<notin> ids_in_queue (sw_mq (snd (server_steps ops (E, ?w'))))
             \<and> getMessagesSince (sw_mq (snd (server_steps ops (E, ?w')))) room (?U ?n)
                 = js_slice (- 50) (room_log (sw_mq (snd (server_steps ops (E, ?w')))) room)"
    for ops E room
  proof -
    have "drawn_from ?U {?n} (snd (server_steps ops (E, ?w')))"
      by (rule server_steps_drawn_from) (simp add: w')
    then have "?U ?n \<notin> ids_in_queue (sw_mq (snd (server_steps ops (E, ?w'))))"
      by (rule excluded_id_absent [OF inj]) simp
    then show ?thesis by (simp add: absent_fallback)
  qed
  show ?thesis
    using run chunks last(1) entry neq later by blast
qed

theorem live_frame_id_not_in_log_witness:
  "stream_chunks (sw_streams (finished (onSSE (OnSSE 0 ''room1'') ex_event ex_world)) 0)
     = [''id: uu'' @ CHR 0x0A # ''event: chatMessage'' @ CHR 0x0A # ''data: hi'' @ CHR 0x0A #
        ''retry: 3000'' @ [CHR 0x0A, CHR 0x0A]]
   \<and> map entry_of (room_log (sw_mq (finished (onSSE (OnSSE 0 ''room1'') ex_event ex_world))) ''room1'')
     = [(''u'', ''chatMessage'', ''{}''), (''uuu'', ''chatMessage'', ''hi'')]
   \<and> ''uu'' \<notin> ids_in_queue (sw_mq (finished (onSSE (OnSSE 0 ''room1'') ex_event ex_world)))
   \<and> getMessagesSince (sw_mq (finished (onSSE (OnSSE 0 ''room1'') ex_event ex_world))) ''room1'' ''uu''
     = js_slice (- 50) (room_log (sw_mq (finished (onSSE (OnSSE 0 ''room1'') ex_event ex_world))) ''room1'')"
proof -
  have size: "0 \<le> maxSize (sw_mq ex_world)" by (simp add: ex_world_def ex_queue_def)
  have op: "\<not> stream_closed (sw_streams ex_world 0)" by (simp add: ex_world_def)
  have live: "ev_type ex_event \<noteq> heartbeat" by (simp add: ex_event_def)
  have f: "uuid_src (sw_env ex_world) (uuid_used (sw_env ex_world)) = ''uu''"
    by (simp add: ex_world_def ex_env_def)
  from live_frame_id_not_in_log [OF ex_world_inj ex_world_drawn size op live, of "''room1''"]
  obtain w' where run: "onSSE (OnSSE 0 ''room1'') ex_event ex_world = Returned w'"
    and chunks: "stream_chunks (sw_streams w' 0)
                   = stream_chunks (sw_streams ex_world 0)
                     @ [''id: '' @ ''uu'' @ CHR 0x0A #
                        ''event: '' @ type_name (ev_type ex_event) @ CHR 0x0A #
                        ''data: '' @ ev_data ex_event @ CHR 0x0A #
                        ''retry: 3000'' @ [CHR 0x0A, CHR 0x0A]]"
    and later: "\<forall>ops E room.
               ''uu'' \<notin> ids_in_queue (sw_mq (snd (server_steps ops (E, w'))))
             \<and> getMessagesSince (sw_mq (snd (server_steps ops (E, w')))) room ''uu''
                 = js_slice (- 50) (room_log (sw_mq (snd (server_steps ops (E, w')))) room)"
    unfolding f by blast
  from later [THEN spec, of "[]", THEN spec, of new_SSEEventEmitter, THEN spec, of "''room1''"]
  have now: "''uu'' \<notin> ids_in_queue (sw_mq w')
             \<and> getMessagesSince (sw_mq w') ''room1'' ''uu''
                 = js_slice (- 50) (room_log (sw_mq w') ''room1'')"
    by (simp add: server_steps_def)
  have log: "map entry_of (room_log (sw_mq (finished (onSSE (OnSSE 0 ''room1'') ex_event ex_world))) ''room1'')
     = [(''u'', ''chatMessage'', ''{}''), (''uuu'', ''chatMessage'', ''hi'')]"
    by (simp add: ex_event_def ex_world_def ex_queue_def ex_message_def
        ex_env_def randomUUID_def Date_now_def world_enqueue_def enqueue_def Let_def
        controller_enqueue_def room_log_def entry_of_def)
  show ?thesis
    using run chunks now log by (simp add: ex_world_def ex_event_def)
qed

section \<open>Broadcast, then catch-up\<close>

lemma findIndex_found:
  "findIndex P xs \<noteq> - 1 \<Longrightarrow>
   0 \<le> findIndex P xs \<and> nat (findIndex P xs) < length xs \<and> P (xs ! nat (findIndex P xs))"
proof (induction xs)
  case Nil
  then show ?case by simp
next
  case (Cons x xs)
  show ?case
  proof (cases "P x")
    case True
    then show ?thesis by simp
  next
    case False
    with Cons.prems have ne: "findIndex P xs \<noteq> - 1" by (auto simp: Let_def split: if_splits)
    from Cons.IH [OF ne] have ih: "0 \<le> findIndex P xs" "nat (findIndex P xs) < length xs"
      "P (xs ! nat (findIndex P xs))" by simp_all
    have "nat (findIndex P xs + 1) = Suc (nat (findIndex P xs))" using ih(1) by simp
    then show ?thesis using False ne ih by (simp add: Let_def)
  qed
qed

lemma last_in_drop: "k < length xs \<Longrightarrow> last xs \<in> set (drop k xs)"
proof -
  assume k: "k < length xs"
  then have "drop k xs \<noteq> []" by simp
  then have "last (drop k xs) \<in> set (drop k xs)" by (rule last_in_set)
  then show ?thesis using k by simp
qed

lemma getMessagesSince_last:
  assumes ne: "room_log q r \<noteq> []" and id: "msg_id (last (room_log q r)) \<noteq> i"
  shows "last (room_log q r) \<in> set (getMessagesSince q r i)"
proof -
  obtain queue where q: "map_of (queues q) r = Some queue" "queue \<noteq> []" "room_log q r = queue"
    using ne by (auto simp: room_log_def split: option.splits)
  let ?i = "findIndex (\<lambda>m. msg_id m = i) queue"
  show ?thesis
  proof (cases "?i = - 1")
    case True
    have "length queue - 50 < length queue" using q(2) by (cases queue) auto
    then have "last queue \<in> set (drop (length queue - 50) queue)" by (rule last_in_drop)
    with True q show ?thesis by (simp add: getMessagesSince_def js_slice_tail_50)
  next
    case False
    from findIndex_found [OF False] have f: "0 \<le> ?i" "nat ?i < length queue"
      "msg_id (queue ! nat ?i) = i" by simp_all
    have "last queue = queue ! (length queue - 1)" using q(2) by (rule last_conv_nth)
    with id q(3) f(3) have "nat ?i \<noteq> length queue - 1" by auto
    with f(2) have lt: "nat ?i + 1 < length queue" by linarith
    have "js_slice (?i + 1) queue = drop (nat ?i + 1) queue"
      using f(1) lt by (simp add: js_slice_def Let_def min_def nat_add_distrib)
    moreover have "last queue \<in> set (drop (nat ?i + 1) queue)" using lt by (rule last_in_drop)
    ultimately show ?thesis using False q by (simp add: getMessagesSince_def)
  qed
qed

lemma fresh_tail_draw:
  "fresh_tail n0 r ev d w \<Longrightarrow> fresh_tail n0 r ev d (w\<lparr>sw_env := snd (randomUUID (sw_env w))\<rparr>)"
  by (auto simp: fresh_tail_def randomUUID_def)

lemma fresh_tail_streams:
  "fresh_tail n0 r ev d w \<Longrightarrow> fresh_tail n0 r ev d (w\<lparr>sw_streams := st\<rparr>)"
  by (simp add: fresh_tail_def)

lemma fresh_tail_here:
  assumes "n0 \<le> uuid_used (sw_env w)" "0 \<le> maxSize (sw_mq w)"
  shows "fresh_tail n0 r ev d (world_enqueue r ev d w)"
proof -
  let ?new = "new_message r ev d (sw_env w)"
  from trim_last [OF assms(2), of "room_log (sw_mq w) r @ [?new]"]
  have "room_log (sw_mq (world_enqueue r ev d w)) r \<noteq> []"
    "last (room_log (sw_mq (world_enqueue r ev d w)) r) = ?new"
    by (simp_all add: room_log_world_enqueue)
  then show ?thesis
    using assms by (auto simp: fresh_tail_def world_enqueue_frame new_message_def)
qed

lemma fresh_tail_world_enqueue:
  assumes "fresh_tail n0 r ev d w"
  shows "fresh_tail n0 r ev d (world_enqueue rid ev d w)"
proof (cases "rid = r")
  case True
  from assms have "n0 \<le> uuid_used (sw_env w)" "0 \<le> maxSize (sw_mq w)"
    by (simp_all add: fresh_tail_def)
  then show ?thesis unfolding True by (rule fresh_tail_here)
next
  case False
  then have "room_log (sw_mq (world_enqueue rid ev d w)) r = room_log (sw_mq w) r"
    by (simp add: room_log_world_enqueue)
  with assms show ?thesis by (auto simp: fresh_tail_def world_enqueue_frame)
qed

lemma onSSE_fresh_tail:
  assumes "fresh_tail n0 r (type_name ty) d w"
    and "onSSE l \<lparr>ev_type = ty, ev_data = d, ev_id = i\<rparr> w = Returned w'
         \<or> onSSE l \<lparr>ev_type = ty, ev_data = d, ev_id = i\<rparr> w = Threw w'"
  shows "fresh_tail n0 r (type_name ty) d w'"
proof -
  let ?ev = "\<lparr>ev_type = ty, ev_data = d, ev_id = i\<rparr>"
  obtain c rid where l: "l = OnSSE c rid" by (cases l)
  from onSSE_returns [of l ?ev w] assms(2) have r: "onSSE l ?ev w = Returned w'" by auto
  let ?w1 = "w\<lparr>sw_env := snd (randomUUID (sw_env w))\<rparr>"
  have w1: "fresh_tail n0 r (type_name ty) d ?w1" by (rule fresh_tail_draw [OF assms(1)])
  show ?thesis
  proof (cases "stream_closed (sw_streams w c)")
    case True
    with r have "w' = ?w1"
      by (auto simp: l Let_def controller_enqueue_def split: prod.splits)
    with w1 show ?thesis by simp
  next
    case False
    let ?w2 = "?w1\<lparr>sw_streams := (sw_streams w)(c := (sw_streams w c)
      \<lparr>stream_chunks := stream_chunks (sw_streams w c)
          @ [formatSSEEvent ?ev (fst (randomUUID (sw_env w)))]\<rparr>)\<rparr>"
    have w2: "fresh_tail n0 r (type_name ty) d ?w2" by (rule fresh_tail_streams [OF w1])
    from False r have w':
      "w' = (if ty \<noteq> heartbeat then world_enqueue rid (type_name ty) d ?w2 else ?w2)"
      by (auto simp: l Let_def controller_enqueue_def split: prod.splits)
    show ?thesis
    proof (cases "ty = heartbeat")
      case True
      with w' have "w' = ?w2" by simp
      with w2 show ?thesis by (simp only:)
    next
      case False
      with w' have "w' = world_enqueue rid (type_name ty) d ?w2" by simp
      with fresh_tail_world_enqueue [OF w2, of rid] show ?thesis by (simp only:)
    qed
  qed
qed

lemma latest_id_drawn:
  assumes "log_ids_drawn {} w" "getLatestEventId (sw_mq w) r = Some id0"
  shows "\<exists>j<uuid_used (sw_env w). id0 = uuid_src (sw_env w) j"
proof -
  from assms(2) obtain queue where q: "map_of (queues (sw_mq w)) r = Some queue" "queue \<noteq> []"
    "id0 = msg_id (last queue)"
    by (auto simp: getLatestEventId_def split: option.splits if_splits)
  have "last queue \<in> set (room_log (sw_mq w) r)" using q by (simp add: room_log_def)
  then have "id0 \<in> ids_in_queue (sw_mq w)"
    using room_log_all_messages [of "sw_mq w" r] q(3) by (auto simp: ids_in_queue_def)
  with assms(1) show ?thesis by (auto simp: log_ids_drawn_def drawn_ids_def)
qed

text \<open>
  What the broadcast needs of the id presented afterwards is only that no later draw
  yields it: then the last entry of the room's log, which the broadcast or one of the
  listeners it called has enqueued, lies behind the first entry carrying that id, or the
  id is unknown and the recent tail is returned.
\<close>

lemma broadcast_then_catch_up:
  assumes room: "r \<noteq> []"
    and size: "0 \<le> maxSize (sw_mq w)"
    and later: "\<And>j. uuid_used (sw_env w) \<le> j \<Longrightarrow> uuid_src (sw_env w) j \<noteq> id0"
  shows "\<exists>E' w' called. broadcast ty d (Some r) (E, w) = Returned (E', w', called)
           \<and> (\<exists>m\<in>set (getMessagesSince (sw_mq w') r id0).
                 msg_event m = type_name ty \<and> msg_data m = d)"
proof -
  let ?U = "uuid_src (sw_env w)"
  let ?n = "uuid_used (sw_env w)"
  let ?w1 = "w\<lparr>sw_env := snd (randomUUID (sw_env w))\<rparr>"
  let ?w2 = "world_enqueue r (type_name ty) d ?w1"
  let ?P = "\<lambda>w. fresh_tail ?n r (type_name ty) d w \<and> uuid_src (sw_env w) = ?U"
  have b: "broadcast ty d (Some r) (E, w)
             = emit onSSE ty d (Some (fst (randomUUID (sw_env w)))) (E, ?w2)"
    using room by (simp add: broadcast_def Let_def case_prod_beta)
  from emit_cases [of onSSE ty d "Some (fst (randomUUID (sw_env w)))" E ?w2]
  obtain E' w' called where
    e: "emit onSSE ty d (Some (fst (randomUUID (sw_env w)))) (E, ?w2) = Returned (E', w', called)"
    by blast
  have "fresh_tail ?n r (type_name ty) d ?w2"
    by (rule fresh_tail_here) (simp_all add: randomUUID_def size)
  then have start: "?P ?w2" by (simp add: world_enqueue_frame randomUUID_def)
  let ?ev = "\<lparr>ev_type = ty, ev_data = d, ev_id = Some (fst (randomUUID (sw_env w)))\<rparr>"
  have "?P w'"
  proof (rule emit_world [where P = ?P, OF _ start e])
    fix l w0 w1
    assume p: "?P w0"
      and c: "onSSE l ?ev w0 = Returned w1 \<or> onSSE l ?ev w0 = Threw w1"
    from onSSE_returns [of l ?ev w0] c have "onSSE l ?ev w0 = Returned w1" by auto
    then have "uuid_src (sw_env w1) = uuid_src (sw_env w0)" by (rule onSSE_uuid_src)
    moreover from p c have "fresh_tail ?n r (type_name ty) d w1"
      using onSSE_fresh_tail by blast
    ultimately show "?P w1" using p by simp
  qed
  then obtain j where tail: "room_log (sw_mq w') r \<noteq> []"
    "msg_event (last (room_log (sw_mq w') r)) = type_name ty"
    "msg_data (last (room_log (sw_mq w') r)) = d"
    and j: "?n \<le> j" "msg_id (last (room_log (sw_mq w') r)) = ?U j"
    by (auto simp: fresh_tail_def)
  have "msg_id (last (room_log (sw_mq w') r)) \<noteq> id0" using j later by simp
  from getMessagesSince_last [OF tail(1) this] tail(2,3)
  have "\<exists>m\<in>set (getMessagesSince (sw_mq w') r id0). msg_event m = type_name ty \<and> msg_data m = d"
    by blast
  with b e show ?thesis by auto
qed

text \<open>
  C1, amended. For a room id that is not the empty string: the room's log is not empty
  and \<open>id0\<close> is the id of its latest entry; ids are pairwise different and the buffer
  holds only ids drawn so far. Then \<open>broadcast\<close> to that room returns, and
  \<open>getMessagesSince\<close> for the room and \<open>id0\<close> right after it contains an entry with
  the broadcast's event type and payload, whatever listeners the bus holds, none included.
\<close>

theorem broadcast_then_getMessagesSince:
  assumes room: "r \<noteq> []"
    and inj: "inj (uuid_src (sw_env w))"
    and drawn: "log_ids_drawn {} w"
    and size: "0 \<le> maxSize (sw_mq w)"
    and id0: "getLatestEventId (sw_mq w) r = Some id0"
  shows "\<exists>E' w' called. broadcast ty d (Some r) (E, w) = Returned (E', w', called)
           \<and> (\<exists>m\<in>set (getMessagesSince (sw_mq w') r id0).
                 msg_event m = type_name ty \<and> msg_data m = d)"
proof (rule broadcast_then_catch_up [OF room size])
  fix j assume j: "uuid_used (sw_env w) \<le> j"
  from latest_id_drawn [OF drawn id0] obtain j0 where
    j0: "j0 < uuid_used (sw_env w)" "id0 = uuid_src (sw_env w) j0" by blast
  show "uuid_src (sw_env w) j \<noteq> id0"
    using inj j j0 by (auto dest: injD)
qed

theorem broadcast_then_getMessagesSince_witness:
  "(\<exists>E' w' called.
      broadcast chatMessage ''hi'' (Some ''room1'') (ex_bus, ex_world) = Returned (E', w', called)
      \<and> (\<exists>m\<in>set (getMessagesSince (sw_mq w') ''room1'' ''u'').
            msg_event m = ''chatMessage'' \<and> msg_data m = ''hi''))
   \<and> map entry_of
       (getMessagesSince
          (sw_mq (fst (snd (finished (broadcast chatMessage ''hi'' (Some ''room1'')
                                        (ex_bus, ex_world))))))
          ''room1'' ''u'')
       = [(''uuu'', ''chatMessage'', ''hi''), (''uuuuu'', ''chatMessage'', ''hi'')]"
proof -
  have room: "''room1'' \<noteq> []" by simp
  have size: "0 \<le> maxSize (sw_mq ex_world)" by (simp add: ex_world_def ex_queue_def)
  have id0: "getLatestEventId (sw_mq ex_world) ''room1'' = Some ''u''"
    by (simp add: getLatestEventId_def ex_world_def ex_queue_def ex_message_def)
  have run: "map entry_of
       (getMessagesSince
          (sw_mq (fst (snd (finished (broadcast chatMessage ''hi'' (Some ''room1'')
                                        (ex_bus, ex_world))))))
          ''room1'' ''u'')
       = [(''uuu'', ''chatMessage'', ''hi''), (''uuuuu'', ''chatMessage'', ''hi'')]"
    by (simp add: broadcast_def emit_def ex_bus_def ex_world_def ex_queue_def ex_message_def
        ex_env_def randomUUID_def Date_now_def world_enqueue_def enqueue_def Let_def
        controller_enqueue_def getMessagesSince_def js_slice_def entry_of_def)
  show ?thesis
    using broadcast_then_getMessagesSince [OF room ex_world_inj ex_world_drawn size id0,
        of chatMessage "''hi''" ex_bus] run
    by simp
qed

text \<open>
  C1 as stated fails for the empty room id, which the test \<open>if (roomId)\<close> treats like an
  absent one: with no listener on the bus nothing is enqueued, and \<open>getMessagesSince\<close>
  for the latest id returns the empty list.
\<close>

theorem broadcast_blank_room:
  "getLatestEventId (sw_mq ex_blank_world) '''' = Some ''u''
   \<and> broadcast chatMessage ''hi'' (Some '''') (new_SSEEventEmitter, ex_blank_world)
       = Returned (new_SSEEventEmitter,
                   ex_blank_world\<lparr>sw_env := ex_env\<lparr>uuid_used := 2, time_used := 1\<rparr>\<rparr>, [])
   \<and> getMessagesSince
        (sw_mq (ex_blank_world\<lparr>sw_env := ex_env\<lparr>uuid_used := 2, time_used := 1\<rparr>\<rparr>)) '''' ''u'' = []"
  by (simp add: broadcast_def emit_def new_SSEEventEmitter_def ex_blank_world_def ex_message_def
      ex_env_def randomUUID_def getLatestEventId_def getMessagesSince_def js_slice_def)

end
